theory Spec2Isabelle
  imports Main "HOL-Library.Word" "HOL-Library.Sublist"
begin

unbundle bit_operations_syntax

section \<open>Data model\<close>

text \<open>
  Python values as the codec in \<^verbatim>\<open>steganography.py\<close> handles them:
  \<^item> an \<^verbatim>\<open>int\<close> is an unbounded \<^typ>\<open>int\<close>;
  \<^item> a \<^verbatim>\<open>str\<close> is the list of its code points (\<^verbatim>\<open>ord(c)\<close> of each character), each in
    \<open>0 .. 0x10FFFF\<close>; lone surrogates are legal in a \<^verbatim>\<open>str\<close>;
  \<^item> a \<^verbatim>\<open>bytes\<close> or \<^verbatim>\<open>bytearray\<close> is a list of 8-bit words; iterating it yields the
    \<^verbatim>\<open>int\<close> \<open>uint b\<close> of each element;
  \<^item> a bit is the \<^verbatim>\<open>int\<close> the code computes with \<^verbatim>\<open>& 1\<close>.
\<close>

type_synonym byte = "8 word"
type_synonym pystr = "int list"
type_synonym pixel = "byte \<times> byte \<times> byte"

definition is_str :: "pystr \<Rightarrow> bool" where
  "is_str s \<longleftrightarrow> list_all (\<lambda>c. 0 \<le> c \<and> c \<le> 0x10FFFF) s"

definition is_bits :: "int list \<Rightarrow> bool" where
  "is_bits bits \<longleftrightarrow> list_all (\<lambda>b. b = 0 \<or> b = 1) bits"

datatype py_exception =
    FileNotFoundError
  | UnidentifiedImageError
  | UnicodeEncodeError
  | UnicodeDecodeError
  | IndexError
  | ValueError
  | PermissionError
  | OSError

text \<open>
  An image file as Pillow presents it: \<^verbatim>\<open>img.size\<close>, \<^verbatim>\<open>img.mode\<close>, the number of
  bands \<^verbatim>\<open>len(img.getbands())\<close>, and the pixel list that
  \<^verbatim>\<open>list(img.convert("RGB").getdata())\<close> yields (8-bit channels, row-major).
  Pillow keeps \<open>length rgb_data = width * height\<close>.
\<close>

record image =
  width :: nat
  height :: nat
  mode :: string
  bands :: nat
  rgb_data :: "pixel list"

definition wf_image :: "image \<Rightarrow> bool" where
  "wf_image img \<longleftrightarrow> length (rgb_data img) = width img * height img"

datatype stored_file = ImageFile image | OtherFile

text \<open>
  The file system the calls run in: what is stored at each path, and the paths at which
  writing a file fails, with the exception \<^verbatim>\<open>Image.save\<close> raises there
  (\<^verbatim>\<open>FileNotFoundError\<close> for a missing directory, \<^verbatim>\<open>PermissionError\<close> for a
  protected one, another \<^verbatim>\<open>OSError\<close> otherwise).
\<close>

record filesystem =
  files :: "string \<Rightarrow> stored_file option"
  save_error :: "string \<Rightarrow> py_exception option"

text \<open>\<^verbatim>\<open>Image.open(path)\<close>: a missing path raises \<^verbatim>\<open>FileNotFoundError\<close>, a file that is
  not an image raises Pillow's \<^verbatim>\<open>UnidentifiedImageError\<close>.\<close>

definition Image_open :: "filesystem \<Rightarrow> string \<Rightarrow> py_exception + image" where
  "Image_open fs path =
     (case files fs path of
        None \<Rightarrow> Inl FileNotFoundError
      | Some OtherFile \<Rightarrow> Inl UnidentifiedImageError
      | Some (ImageFile img) \<Rightarrow> Inr img)"

text \<open>The human-readable \<^verbatim>\<open>"message"\<close> of a result, by which text the code builds; the
  arguments are the numbers formatted into it.\<close>

datatype status =
    MessageTooLarge int int
  | MessageHidden
  | ImageFileNotFound
  | ErrorExc py_exception
  | NoHiddenMessage
  | MessageExtracted

record encode_result =
  success :: bool
  message :: status
  capacity :: int
  used :: int

record decode_result =
  dec_success :: bool
  dec_message :: status
  secret :: "pystr option"

datatype capacity_result =
    CapacityInfo (cap_width: nat) (cap_height: nat) (cap_mode: string) (capacity_chars: int)
  | CapacityFailed py_exception

section \<open>The standard codecs the module calls\<close>

text \<open>
  \<^verbatim>\<open>str.encode("utf-8")\<close> (strict): one to four bytes per code point; a surrogate
  \<open>0xD800 .. 0xDFFF\<close> raises \<^verbatim>\<open>UnicodeEncodeError\<close>.
\<close>

definition utf8_encode_char :: "int \<Rightarrow> py_exception + byte list" where
  "utf8_encode_char c =
     (if c < 0x80 then Inr [word_of_int c]
      else if c < 0x800 then
        Inr [word_of_int (0xC0 + c div 64), word_of_int (0x80 + c mod 64)]
      else if 0xD800 \<le> c \<and> c \<le> 0xDFFF then Inl UnicodeEncodeError
      else if c < 0x10000 then
        Inr [word_of_int (0xE0 + c div 4096), word_of_int (0x80 + c div 64 mod 64),
             word_of_int (0x80 + c mod 64)]
      else
        Inr [word_of_int (0xF0 + c div 262144), word_of_int (0x80 + c div 4096 mod 64),
             word_of_int (0x80 + c div 64 mod 64), word_of_int (0x80 + c mod 64)])"

fun utf8_encode :: "pystr \<Rightarrow> py_exception + byte list" where
  "utf8_encode [] = Inr []"
| "utf8_encode (c # cs) =
     (case utf8_encode_char c of
        Inl e \<Rightarrow> Inl e
      | Inr bs \<Rightarrow> (case utf8_encode cs of Inl e \<Rightarrow> Inl e | Inr rest \<Rightarrow> Inr (bs @ rest)))"

text \<open>
  \<^verbatim>\<open>bytes.decode("utf-8")\<close> (strict) accepts exactly the well-formed sequences of the
  Unicode standard: continuation bytes are \<open>0x80 .. 0xBF\<close>, and overlong forms, encoded
  surrogates and values above \<open>0x10FFFF\<close> raise \<^verbatim>\<open>UnicodeDecodeError\<close>, as does a
  truncated sequence.
\<close>

definition is_cont :: "int \<Rightarrow> bool" where
  "is_cont b \<longleftrightarrow> 0x80 \<le> b \<and> b \<le> 0xBF"

definition cons_char :: "int \<Rightarrow> py_exception + pystr \<Rightarrow> py_exception + pystr" where
  "cons_char c r = (case r of Inl e \<Rightarrow> Inl e | Inr cs \<Rightarrow> Inr (c # cs))"

fun utf8_decode_ints :: "int list \<Rightarrow> py_exception + pystr" where
  "utf8_decode_ints [] = Inr []"
| "utf8_decode_ints (b0 # bs) =
     (if b0 < 0x80 then cons_char b0 (utf8_decode_ints bs)
      else if 0xC2 \<le> b0 \<and> b0 \<le> 0xDF then
        (case bs of
           b1 # rest \<Rightarrow>
             if is_cont b1
             then cons_char ((b0 - 0xC0) * 64 + (b1 - 0x80)) (utf8_decode_ints rest)
             else Inl UnicodeDecodeError
         | _ \<Rightarrow> Inl UnicodeDecodeError)
      else if 0xE0 \<le> b0 \<and> b0 \<le> 0xEF then
        (case bs of
           b1 # b2 # rest \<Rightarrow>
             (let c = (b0 - 0xE0) * 4096 + (b1 - 0x80) * 64 + (b2 - 0x80) in
              if is_cont b1 \<and> is_cont b2 \<and> 0x800 \<le> c \<and> \<not> (0xD800 \<le> c \<and> c \<le> 0xDFFF)
              then cons_char c (utf8_decode_ints rest)
              else Inl UnicodeDecodeError)
         | _ \<Rightarrow> Inl UnicodeDecodeError)
      else if 0xF0 \<le> b0 \<and> b0 \<le> 0xF4 then
        (case bs of
           b1 # b2 # b3 # rest \<Rightarrow>
             (let c = (b0 - 0xF0) * 262144 + (b1 - 0x80) * 4096 + (b2 - 0x80) * 64 + (b3 - 0x80) in
              if is_cont b1 \<and> is_cont b2 \<and> is_cont b3 \<and> 0x10000 \<le> c \<and> c \<le> 0x10FFFF
              then cons_char c (utf8_decode_ints rest)
              else Inl UnicodeDecodeError)
         | _ \<Rightarrow> Inl UnicodeDecodeError)
      else Inl UnicodeDecodeError)"

definition utf8_decode :: "byte list \<Rightarrow> py_exception + pystr" where
  "utf8_decode bs = utf8_decode_ints (map uint bs)"

text \<open>\<^verbatim>\<open>bytes.decode("latin-1")\<close>: every byte is the code point of its value.\<close>

definition latin1_decode :: "byte list \<Rightarrow> pystr" where
  "latin1_decode bs = map uint bs"

section \<open>Module constants and the bit serializer\<close>

definition DELIMITER :: pystr where
  "DELIMITER = map of_char ''<<END>>''"

text \<open>\<^verbatim>\<open>DELIMITER.encode("utf-8")\<close>; the literal is ASCII, so the call cannot raise.\<close>

definition delimiter_bytes :: "byte list" where
  "delimiter_bytes = (case utf8_encode DELIMITER of Inr bs \<Rightarrow> bs | Inl e \<Rightarrow> [])"

text \<open>The inner loop \<^verbatim>\<open>for i in range(7, -1, -1): bits.append((byte >> i) & 1)\<close>.\<close>

definition byte_bits :: "int \<Rightarrow> int list" where
  "byte_bits byte = map (\<lambda>i. drop_bit i byte AND 1) [7, 6, 5, 4, 3, 2, 1, 0]"

fun bytes_to_bits :: "byte list \<Rightarrow> int list" where
  "bytes_to_bits [] = []"
| "bytes_to_bits (byte # rest) = byte_bits (uint byte) @ bytes_to_bits rest"

definition text_to_bits :: "pystr \<Rightarrow> py_exception + int list" where
  "text_to_bits text =
     (case utf8_encode text of Inl e \<Rightarrow> Inl e | Inr bs \<Rightarrow> Inr (bytes_to_bits bs))"

text \<open>The inner loop \<^verbatim>\<open>byte = 0; for bit in byte_bits: byte = (byte << 1) | bit\<close>.\<close>

definition bits_to_byte :: "int list \<Rightarrow> int" where
  "bits_to_byte buffer = foldl (\<lambda>byte bit_val. push_bit 1 byte OR bit_val) 0 buffer"

text \<open>\<^verbatim>\<open>_bits_to_text\<close>: a slice \<^verbatim>\<open>bits[i : i + 8]\<close> shorter than 8 ends the loop;
  \<^verbatim>\<open>chr(byte)\<close> raises \<^verbatim>\<open>ValueError\<close> outside \<open>0 .. 0x10FFFF\<close>.\<close>

fun bits_to_text :: "int list \<Rightarrow> py_exception + pystr" where
  "bits_to_text (b0 # b1 # b2 # b3 # b4 # b5 # b6 # b7 # rest) =
     (let byte = bits_to_byte [b0, b1, b2, b3, b4, b5, b6, b7] in
      if 0 \<le> byte \<and> byte \<le> 0x10FFFF then cons_char byte (bits_to_text rest)
      else Inl ValueError)"
| "bits_to_text _ = Inr []"

section \<open>Password transform\<close>

text \<open>\<^verbatim>\<open>sum(ord(c) for c in password) % 256\<close>.\<close>

definition password_shift :: "pystr \<Rightarrow> int" where
  "password_shift password = sum_list password mod 256"

text \<open>Lines 59-61 of \<^verbatim>\<open>encode_message\<close> (the spec's ApplyShift).\<close>

definition apply_shift :: "byte list \<Rightarrow> pystr \<Rightarrow> byte list" where
  "apply_shift payload_bytes password =
     (if password \<noteq> [] then
        (let shift = password_shift password
         in map (\<lambda>b. word_of_int ((uint b + shift) mod 256)) payload_bytes)
      else payload_bytes)"

text \<open>Lines 161-163 of \<^verbatim>\<open>decode_message\<close> (the spec's ReverseShift).\<close>

definition reverse_shift :: "byte list \<Rightarrow> pystr \<Rightarrow> byte list" where
  "reverse_shift payload_bytes password =
     (if password \<noteq> [] then
        (let shift = password_shift password
         in map (\<lambda>b. word_of_int ((uint b - shift) mod 256)) payload_bytes)
      else payload_bytes)"

section \<open>Encode\<close>

text \<open>\<^verbatim>\<open>[channel for pixel in pixels for channel in pixel]\<close>: the channels as \<^verbatim>\<open>int\<close>s.\<close>

fun flatten :: "pixel list \<Rightarrow> int list" where
  "flatten [] = []"
| "flatten ((r, g, b) # pixels) = uint r # uint g # uint b # flatten pixels"

text \<open>The loop \<^verbatim>\<open>for idx, bit in enumerate(bits): flat_pixels[idx] = (flat_pixels[idx] & ~1) | bit\<close>;
  an index past the end of the list raises \<^verbatim>\<open>IndexError\<close>.\<close>

fun embed_bits :: "nat \<Rightarrow> int list \<Rightarrow> int list \<Rightarrow> py_exception + int list" where
  "embed_bits idx [] flat_pixels = Inr flat_pixels"
| "embed_bits idx (bit_val # bits) flat_pixels =
     (if idx < length flat_pixels
      then embed_bits (Suc idx) bits
             (flat_pixels[idx := (flat_pixels ! idx AND NOT 1) OR bit_val])
      else Inl IndexError)"

text \<open>The comprehension \<^verbatim>\<open>[(flat_pixels[i], flat_pixels[i + 1], flat_pixels[i + 2])
  for i in range(0, len(flat_pixels), 3)]\<close>; a last group of one or two values raises
  \<^verbatim>\<open>IndexError\<close>.\<close>

fun regroup :: "int list \<Rightarrow> py_exception + (int \<times> int \<times> int) list" where
  "regroup [] = Inr []"
| "regroup (r # g # b # rest) =
     (case regroup rest of Inl e \<Rightarrow> Inl e | Inr new_pixels \<Rightarrow> Inr ((r, g, b) # new_pixels))"
| "regroup _ = Inl IndexError"

text \<open>\<^verbatim>\<open>Image.new("RGB", (width, height))\<close>, \<^verbatim>\<open>putdata(new_pixels)\<close>: the image that
  \<^verbatim>\<open>save(output_path, format="PNG")\<close> stores; PNG is lossless, so opening the file
  again yields these pixels.\<close>

definition new_rgb_image :: "nat \<Rightarrow> nat \<Rightarrow> (int \<times> int \<times> int) list \<Rightarrow> image" where
  "new_rgb_image w h new_pixels =
     \<lparr>width = w, height = h, mode = ''RGB'', bands = 3,
      rgb_data = map (\<lambda>(r, g, b). (word_of_int r, word_of_int g, word_of_int b)) new_pixels\<rparr>"

text \<open>\<^verbatim>\<open>new_img.save(output_path, format="PNG")\<close>: where the path cannot be written the
  call raises and the file system stays as it was; otherwise the path holds the image.\<close>

definition Image_save :: "filesystem \<Rightarrow> string \<Rightarrow> image \<Rightarrow> py_exception + filesystem" where
  "Image_save fs path img =
     (case save_error fs path of
        Some exc \<Rightarrow> Inl exc
      | None \<Rightarrow> Inr (fs\<lparr>files := (files fs)(path \<mapsto> ImageFile img)\<rparr>))"

text \<open>The body of the \<^verbatim>\<open>try\<close> block of \<^verbatim>\<open>encode_message\<close>: \<open>Inl\<close> is an exception raised
  inside it, \<open>Inr\<close> the returned dict together with the file system after the call.\<close>

definition encode_body ::
  "filesystem \<Rightarrow> string \<Rightarrow> pystr \<Rightarrow> string \<Rightarrow> pystr \<Rightarrow> py_exception + (encode_result \<times> filesystem)"
where
  "encode_body fs image_path msg output_path password =
     (case Image_open fs image_path of
        Inl e \<Rightarrow> Inl e
      | Inr img \<Rightarrow>
          (let pixels = rgb_data img;
               capacity_bits = width img * height img * 3;
               capacity_chars = capacity_bits div 8
           in case utf8_encode msg of
                Inl e \<Rightarrow> Inl e
              | Inr payload_bytes \<Rightarrow>
                  (let payload_bytes = apply_shift payload_bytes password
                   in case utf8_encode DELIMITER of
                        Inl e \<Rightarrow> Inl e
                      | Inr delim \<Rightarrow>
                          (let full_payload_bytes = payload_bytes @ delim;
                               bits = bytes_to_bits full_payload_bytes
                           in if length bits > capacity_bits then
                                Inr (\<lparr>success = False,
                                      message = MessageTooLarge
                                        (int capacity_chars - int (length DELIMITER))
                                        (int (length full_payload_bytes)),
                                      capacity = int capacity_chars,
                                      used = int (length full_payload_bytes)\<rparr>, fs)
                              else
                                (case embed_bits 0 bits (flatten pixels) of
                                   Inl e \<Rightarrow> Inl e
                                 | Inr flat_pixels \<Rightarrow>
                                     (case regroup flat_pixels of
                                        Inl e \<Rightarrow> Inl e
                                      | Inr new_pixels \<Rightarrow>
                                          (case Image_save fs output_path
                                                  (new_rgb_image (width img) (height img)
                                                     new_pixels) of
                                             Inl e \<Rightarrow> Inl e
                                           | Inr fs' \<Rightarrow>
                                               Inr (\<lparr>success = True,
                                                     message = MessageHidden,
                                                     capacity = int capacity_chars,
                                                     used = int (length full_payload_bytes)\<rparr>,
                                                    fs'))))))))"

text \<open>\<^verbatim>\<open>encode_message\<close> with its two \<^verbatim>\<open>except\<close> clauses; an exception leaves the file
  system as it was.\<close>

definition encode_message ::
  "filesystem \<Rightarrow> string \<Rightarrow> pystr \<Rightarrow> string \<Rightarrow> pystr \<Rightarrow> encode_result \<times> filesystem"
where
  "encode_message fs image_path msg output_path password =
     (case encode_body fs image_path msg output_path password of
        Inr r \<Rightarrow> r
      | Inl FileNotFoundError \<Rightarrow>
          (\<lparr>success = False, message = ImageFileNotFound, capacity = 0, used = 0\<rparr>, fs)
      | Inl exc \<Rightarrow>
          (\<lparr>success = False, message = ErrorExc exc, capacity = 0, used = 0\<rparr>, fs))"

section \<open>Decode\<close>

text \<open>The scan loop of \<^verbatim>\<open>decode_message\<close> over \<^verbatim>\<open>raw_bits\<close>, with its state \<^verbatim>\<open>buffer\<close> and
  \<^verbatim>\<open>payload_bytes\<close>; it returns \<^verbatim>\<open>payload_bytes\<close> and \<^verbatim>\<open>found\<close> as they are after the
  loop. \<^verbatim>\<open>bytearray.append\<close> raises \<^verbatim>\<open>ValueError\<close> outside \<open>0 .. 255\<close>.\<close>

fun scan_bits :: "int list \<Rightarrow> int list \<Rightarrow> byte list \<Rightarrow> py_exception + (byte list \<times> bool)" where
  "scan_bits [] buffer payload_bytes = Inr (payload_bytes, False)"
| "scan_bits (bit_val # raw_bits) buffer payload_bytes =
     (let buffer = buffer @ [bit_val] in
      if length buffer = 8 then
        (let byte = bits_to_byte buffer in
         if 0 \<le> byte \<and> byte < 256 then
           (let payload_bytes = payload_bytes @ [word_of_int byte] in
            if length payload_bytes \<ge> length delimiter_bytes
               \<and> drop (length payload_bytes - length delimiter_bytes) payload_bytes = delimiter_bytes
            then Inr (take (length payload_bytes - length delimiter_bytes) payload_bytes, True)
            else scan_bits raw_bits [] payload_bytes)
         else Inl ValueError)
      else scan_bits raw_bits buffer payload_bytes)"

text \<open>Lines 166-169: UTF-8 first, Latin-1 when that raises \<^verbatim>\<open>UnicodeDecodeError\<close>.\<close>

definition decode_text :: "byte list \<Rightarrow> py_exception + pystr" where
  "decode_text payload_bytes =
     (case utf8_decode payload_bytes of
        Inr payload \<Rightarrow> Inr payload
      | Inl UnicodeDecodeError \<Rightarrow> Inr (latin1_decode payload_bytes)
      | Inl exc \<Rightarrow> Inl exc)"

definition decode_body :: "filesystem \<Rightarrow> string \<Rightarrow> pystr \<Rightarrow> py_exception + decode_result" where
  "decode_body fs image_path password =
     (case Image_open fs image_path of
        Inl e \<Rightarrow> Inl e
      | Inr img \<Rightarrow>
          (let pixels = rgb_data img;
               flat_pixels = flatten pixels;
               raw_bits = map (\<lambda>p. p AND 1) flat_pixels
           in case scan_bits raw_bits [] [] of
                Inl e \<Rightarrow> Inl e
              | Inr (payload_bytes, found) \<Rightarrow>
                  if \<not> found then
                    Inr \<lparr>dec_success = False, dec_message = NoHiddenMessage, secret = None\<rparr>
                  else
                    (let payload_bytes = reverse_shift payload_bytes password
                     in case decode_text payload_bytes of
                          Inl e \<Rightarrow> Inl e
                        | Inr payload \<Rightarrow>
                            Inr \<lparr>dec_success = True, dec_message = MessageExtracted,
                                 secret = Some payload\<rparr>)))"

definition decode_message :: "filesystem \<Rightarrow> string \<Rightarrow> pystr \<Rightarrow> decode_result" where
  "decode_message fs image_path password =
     (case decode_body fs image_path password of
        Inr r \<Rightarrow> r
      | Inl FileNotFoundError \<Rightarrow>
          \<lparr>dec_success = False, dec_message = ImageFileNotFound, secret = None\<rparr>
      | Inl exc \<Rightarrow> \<lparr>dec_success = False, dec_message = ErrorExc exc, secret = None\<rparr>)"

section \<open>Capacity\<close>

definition image_capacity :: "filesystem \<Rightarrow> string \<Rightarrow> capacity_result" where
  "image_capacity fs image_path =
     (case Image_open fs image_path of
        Inl exc \<Rightarrow> CapacityFailed exc
      | Inr img \<Rightarrow>
          (let w = width img; h = height img;
               channels = bands img;
               capacity_bits = w * h * min channels 3;
               capacity_chars = capacity_bits div 8;
               usable = int capacity_chars - int (length DELIMITER) - 10
           in CapacityInfo w h (mode img) (max usable 0)))"

section \<open>Auxiliary definitions\<close>

text \<open>The scan loop seen byte by byte: what \<open>scan_bits\<close> does on a stream of whole bytes.\<close>

fun scan_bytes :: "byte list \<Rightarrow> byte list \<Rightarrow> byte list \<times> bool" where
  "scan_bytes [] payload_bytes = (payload_bytes, False)"
| "scan_bytes (b # bs) payload_bytes =
     (let payload_bytes = payload_bytes @ [b] in
      if suffix delimiter_bytes payload_bytes
      then (take (length payload_bytes - length delimiter_bytes) payload_bytes, True)
      else scan_bytes bs payload_bytes)"

text \<open>The value the embedding loop stores: the channel with its last bit replaced.\<close>

definition set_lsb :: "int \<Rightarrow> int \<Rightarrow> int" where
  "set_lsb p b = (p AND NOT 1) OR b"

text \<open>The flattened channels after the embedding loop has run over \<open>bits\<close>.\<close>

definition stego_flat :: "int list \<Rightarrow> int list \<Rightarrow> int list" where
  "stego_flat flat bits =
     map2 set_lsb (take (length bits) flat) bits @ drop (length bits) flat"

text \<open>One step of the UTF-8 decoder: it fails, or yields a code point and continues on a
  shorter rest.\<close>

definition is_step :: "int list \<Rightarrow> py_exception + pystr \<Rightarrow> bool" where
  "is_step bs r \<longleftrightarrow> r = Inl UnicodeDecodeError
     \<or> (\<exists>c rest. length rest < length bs \<and> r = cons_char c (utf8_decode_ints rest))"

text \<open>A file system that holds one image file and accepts every write.\<close>

definition image_fs :: "string \<Rightarrow> image \<Rightarrow> filesystem" where
  "image_fs path img = \<lparr>files = [path \<mapsto> ImageFile img], save_error = (\<lambda>p. None)\<rparr>"

text \<open>The same file system, except that nothing can be written at \<open>locked\<close>: the directory
  of that path does not exist.\<close>

definition image_fs_without :: "string \<Rightarrow> image \<Rightarrow> string \<Rightarrow> filesystem" where
  "image_fs_without path img locked =
     \<lparr>files = [path \<mapsto> ImageFile img], save_error = [locked \<mapsto> FileNotFoundError]\<rparr>"

text \<open>\<^verbatim>\<open>Image.new("RGB", (w, h), color)\<close>, the carrier that \<^verbatim>\<open>test_encryption.py\<close> builds.\<close>

definition solid_rgb :: "nat \<Rightarrow> nat \<Rightarrow> pixel \<Rightarrow> image" where
  "solid_rgb w h colour =
     \<lparr>width = w, height = h, mode = ''RGB'', bands = 3, rgb_data = replicate (w * h) colour\<rparr>"

text \<open>A 2 x 2 carrier without a payload, and a 22 x 1 image whose last bits spell the byte
  \<open>0xFF\<close> followed by the delimiter.\<close>

definition plain_image :: image where
  "plain_image =
     \<lparr>width = 2, height = 2, mode = ''RGB'', bands = 3,
      rgb_data = [(42, 58, 90), (42, 58, 90), (42, 58, 90), (42, 58, 90)]\<rparr>"

definition garbled_image :: image where
  "garbled_image =
     \<lparr>width = 22, height = 1, mode = ''RGB'', bands = 3,
      rgb_data = [(1, 1, 1), (1, 1, 1), (1, 1, 0), (0, 1, 1), (1, 1, 0), (0, 0, 0), (1, 1, 1),
                  (1, 0, 0), (0, 1, 0), (0, 0, 1), (0, 1, 0), (1, 0, 0), (1, 1, 1), (0, 0, 1),
                  (0, 0, 0), (1, 0, 0), (0, 0, 1), (1, 1, 1), (1, 0, 0), (0, 1, 1), (1, 1, 1),
                  (0, 0, 0)]\<rparr>"

text \<open>Strings that \<^verbatim>\<open>bytes.decode("latin-1")\<close> can return.\<close>

definition is_latin :: "pystr \<Rightarrow> bool" where
  "is_latin cs \<longleftrightarrow> list_all (\<lambda>c. 0 \<le> c \<and> c < 256) cs"

section \<open>Proofs\<close>

lemma byte_of_uint_mod: "(word_of_int (uint b mod 256) :: byte) = b"
proof -
  have "uint b mod 256 = uint b"
    using uint_bounded [of b] uint_nonnegative [of b] by simp
  then show ?thesis by simp
qed

lemma unshift_shift_byte:
  "(word_of_int ((uint (word_of_int ((uint b + s) mod 256) :: byte) - s) mod 256) :: byte) = b"
proof -
  have "(uint (word_of_int ((uint b + s) mod 256) :: byte) - s) mod 256 = uint b mod 256"
    by (simp add: uint_word_of_int take_bit_eq_mod mod_diff_left_eq)
  then show ?thesis by (simp only: byte_of_uint_mod)
qed

subsection \<open>Bits of a byte and the least-significant bit of a channel\<close>

lemma and_one_cases: "(x::int) AND 1 = 0 \<or> x AND 1 = 1"
  by (simp add: and_one_eq) presburger

lemma byte_bits_is_bits: "is_bits (byte_bits x)"
  unfolding is_bits_def byte_bits_def by (simp add: and_one_cases)

lemma length_byte_bits: "length (byte_bits x) = 8"
  by (simp add: byte_bits_def)

lemma length_bytes_to_bits: "length (bytes_to_bits bs) = 8 * length bs"
  by (induction bs) (simp_all add: length_byte_bits)

lemma shift_or_bit: "b = 0 \<or> b = 1 \<Longrightarrow> push_bit 1 (x::int) OR b = 2 * x + b"
  by (auto simp add: or_one_eq push_bit_eq_mult)

lemma shift_or_and_one: "push_bit 1 (x::int) OR (y AND 1) = 2 * x + y mod 2"
  using shift_or_bit [OF and_one_cases, of x y] by (simp add: and_one_eq)

lemma halves: "2 * ((y::int) div 2) + y mod 2 = y"
  by simp

lemma bits_to_byte_byte_bits:
  assumes "0 \<le> x" "x < 256"
  shows "bits_to_byte (byte_bits x) = x"
proof -
  have top: "x div 128 mod 2 = x div 64 div 2"
    using assms by simp
  have d: "x div 64 = x div 32 div 2" "x div 32 = x div 16 div 2" "x div 16 = x div 8 div 2"
    "x div 8 = x div 4 div 2" "x div 4 = x div 2 div 2"
    by simp_all
  have "bits_to_byte (byte_bits x) =
    2 * (2 * (2 * (2 * (2 * (2 * (2 * (x div 128 mod 2) + x div 64 mod 2) + x div 32 mod 2)
      + x div 16 mod 2) + x div 8 mod 2) + x div 4 mod 2) + x div 2 mod 2) + x mod 2"
    unfolding bits_to_byte_def byte_bits_def list.map foldl.simps shift_or_and_one
    by (simp add: drop_bit_eq_div)
  also have "\<dots> = 2 * (2 * (2 * (2 * (2 * (2 * (x div 64)  + x div 32 mod 2)
      + x div 16 mod 2) + x div 8 mod 2) + x div 4 mod 2) + x div 2 mod 2) + x mod 2"
    unfolding top halves ..
  also have "\<dots> = 2 * (2 * (2 * (2 * (2 * (x div 32)
      + x div 16 mod 2) + x div 8 mod 2) + x div 4 mod 2) + x div 2 mod 2) + x mod 2"
    unfolding d(1) halves ..
  also have "\<dots> = 2 * (2 * (2 * (2 * (x div 16)
       + x div 8 mod 2) + x div 4 mod 2) + x div 2 mod 2) + x mod 2"
    unfolding d(2) halves ..
  also have "\<dots> = 2 * (2 * (2 * (x div 8) + x div 4 mod 2) + x div 2 mod 2) + x mod 2"
    unfolding d(3) halves ..
  also have "\<dots> = 2 * (2 * (x div 4) + x div 2 mod 2) + x mod 2"
    unfolding d(4) halves ..
  also have "\<dots> = 2 * (x div 2) + x mod 2"
    unfolding d(5) halves ..
  also have "\<dots> = x"
    by (rule halves)
  finally show ?thesis .
qed


lemma even_clear_lsb: "even ((x::int) AND NOT 1)"
  by (simp add: even_and_iff)

lemma set_lsb_and_one:
  assumes "b = 0 \<or> b = 1"
  shows "((x::int) AND NOT 1 OR b) AND 1 = b"
proof -
  have e: "even (x AND NOT 1)" by (rule even_clear_lsb)
  from assms show ?thesis
  proof
    assume "b = 0"
    with e show ?thesis by (simp add: and_one_eq del: not_one_eq)
  next
    assume "b = 1"
    have "((x AND NOT 1) + 1) mod 2 = 1"
      using e by presburger
    with e \<open>b = 1\<close> show ?thesis by (simp add: and_one_eq or_one_eq del: not_one_eq)
  qed
qed

lemma set_lsb_drop_bit:
  assumes "b = 0 \<or> b = 1"
  shows "drop_bit 1 ((x::int) AND NOT 1 OR b) = drop_bit 1 x"
  using assms by (auto simp add: drop_bit_Suc)


lemma set_lsb_range:
  assumes "0 \<le> x" "x < 256" "b = 0 \<or> b = 1"
  shows "0 \<le> ((x::int) AND NOT 1 OR b) \<and> (x AND NOT 1 OR b) < 256"
proof -
  define y where "y = (x AND NOT 1 OR b)"
  have m: "y mod 2 = b"
    using set_lsb_and_one [OF assms(3), of x] by (simp add: y_def and_one_eq del: not_one_eq)
  have d: "y div 2 = x div 2"
    using set_lsb_drop_bit [OF assms(3), of x]
    by (simp only: y_def drop_bit_eq_div power_one_right)
  have "y = 2 * (y div 2) + y mod 2" by simp
  then have "y = 2 * (x div 2) + b" by (simp only: m d)
  with assms have "0 \<le> y \<and> y < 256" by presburger
  then show ?thesis by (simp only: y_def)
qed

lemma set_lsb_bit: "b = 0 \<or> b = 1 \<Longrightarrow> set_lsb x b AND 1 = b"
  unfolding set_lsb_def by (rule set_lsb_and_one)

lemma set_lsb_upper: "b = 0 \<or> b = 1 \<Longrightarrow> drop_bit 1 (set_lsb x b) = drop_bit 1 x"
  unfolding set_lsb_def by (rule set_lsb_drop_bit)

lemma set_lsb_bounds:
  "0 \<le> x \<Longrightarrow> x < 256 \<Longrightarrow> b = 0 \<or> b = 1 \<Longrightarrow> 0 \<le> set_lsb x b \<and> set_lsb x b < 256"
  unfolding set_lsb_def by (rule set_lsb_range)

subsection \<open>Embedding and regrouping\<close>

lemma embed_bits_append:
  "idx + length bits \<le> length flat \<Longrightarrow>
   embed_bits idx bits flat =
     Inr (take idx flat @ map2 set_lsb (take (length bits) (drop idx flat)) bits
          @ drop (idx + length bits) flat)"
proof (induction bits arbitrary: idx flat)
  case Nil
  then show ?case by simp
next
  case (Cons b bits)
  let ?v = "set_lsb (flat ! idx) b"
  let ?flat' = "flat[idx := ?v]"
  from Cons.prems have lt: "idx < length flat" by simp
  from Cons.prems have le: "Suc idx + length bits \<le> length ?flat'" by simp
  have t: "take (Suc idx) ?flat' = take idx flat @ [?v]"
    using lt by (simp add: take_Suc_conv_app_nth)
  have d: "drop (Suc idx) ?flat' = drop (Suc idx) flat"
    by simp
  have d2: "drop (Suc idx + length bits) ?flat' = drop (Suc idx + length bits) flat"
    by simp
  have c: "drop idx flat = flat ! idx # drop (Suc idx) flat"
    using lt by (simp add: Cons_nth_drop_Suc)
  have "embed_bits idx (b # bits) flat = embed_bits (Suc idx) bits ?flat'"
    using lt by (simp only: embed_bits.simps set_lsb_def if_True)
  also have "\<dots> = Inr (take (Suc idx) ?flat' @
       map2 set_lsb (take (length bits) (drop (Suc idx) ?flat')) bits
       @ drop (Suc idx + length bits) ?flat')"
    by (rule Cons.IH [OF le])
  also have "\<dots> = Inr (take idx flat @
       map2 set_lsb (take (length (b # bits)) (drop idx flat)) (b # bits)
       @ drop (idx + length (b # bits)) flat)"
    unfolding t d d2 by (simp add: c)
  finally show ?case .
qed

lemma embed_bits_Inr_iff:
  "(\<exists>flat'. embed_bits idx bits flat = Inr flat') \<longleftrightarrow> bits = [] \<or> idx + length bits \<le> length flat"
  by (induction idx bits flat rule: embed_bits.induct) auto

lemma length_flatten: "length (flatten pixels) = 3 * length pixels"
  by (induction pixels rule: flatten.induct) simp_all

lemma flatten_range: "x \<in> set (flatten pixels) \<Longrightarrow> 0 \<le> x \<and> x < 256"
  by (induction pixels rule: flatten.induct) (auto simp: uint_bounded[where 'a=8, simplified])

lemma regroup_total:
  "length flat = 3 * n \<Longrightarrow> \<exists>new_pixels. regroup flat = Inr new_pixels"
proof (induction n arbitrary: flat)
  case 0
  then show ?case by simp
next
  case (Suc n)
  then obtain r g b rest where f: "flat = r # g # b # rest"
    by (cases flat rule: regroup.cases) auto
  with Suc.prems have "length rest = 3 * n" by simp
  from Suc.IH [OF this] f show ?case by auto
qed

lemma flatten_regroup:
  "regroup flat = Inr new_pixels \<Longrightarrow> \<forall>x\<in>set flat. 0 \<le> x \<and> x < 256 \<Longrightarrow>
   flatten (map (\<lambda>(r, g, b). (word_of_int r, word_of_int g, word_of_int b)) new_pixels) = flat"
proof (induction flat arbitrary: new_pixels rule: regroup.induct)
  case 1
  then show ?case by simp
next
  case (2 r g b rest)
  then show ?case
    by (auto split: sum.splits simp: uint_word_of_int take_bit_eq_mod)
qed simp_all

subsection \<open>The scan loop\<close>

lemma utf8_encode_DELIMITER: "utf8_encode DELIMITER = Inr [60, 60, 69, 78, 68, 62, 62]"
  by (simp add: DELIMITER_def utf8_encode_char_def)

lemma delimiter_bytes_eq: "delimiter_bytes = [60, 60, 69, 78, 68, 62, 62]"
  by (simp add: delimiter_bytes_def utf8_encode_DELIMITER)

lemma length_delimiter_bytes: "length delimiter_bytes = 7"
  by (simp add: delimiter_bytes_eq)

lemma length_DELIMITER: "length DELIMITER = 7"
  by (simp add: DELIMITER_def)

lemma suffix_iff_drop:
  "suffix xs ys \<longleftrightarrow> length xs \<le> length ys \<and> drop (length ys - length xs) ys = xs"
proof
  assume "suffix xs ys"
  then obtain zs where "ys = zs @ xs" by (auto simp: suffix_def)
  then show "length xs \<le> length ys \<and> drop (length ys - length xs) ys = xs" by simp
next
  assume "length xs \<le> length ys \<and> drop (length ys - length xs) ys = xs"
  then have "ys = take (length ys - length xs) ys @ xs"
    by (metis append_take_drop_id)
  then show "suffix xs ys" by (metis suffixI)
qed

lemma scan_bits_fill:
  "length buffer + length xs < 8 \<Longrightarrow>
   scan_bits (xs @ rest) buffer acc = scan_bits rest (buffer @ xs) acc"
proof (induction xs arbitrary: buffer)
  case Nil
  then show ?case by simp
next
  case (Cons x xs)
  from Cons.prems have "length (buffer @ [x]) + length xs < 8" by simp
  from Cons.IH [OF this] Cons.prems show ?case by simp
qed

lemma scan_bits_group:
  assumes "length w = 8"
  shows "scan_bits (w @ rest) [] acc =
     (let byte = bits_to_byte w in
      if 0 \<le> byte \<and> byte < 256 then
        (let payload_bytes = acc @ [word_of_int byte] in
         if suffix delimiter_bytes payload_bytes
         then Inr (take (length payload_bytes - length delimiter_bytes) payload_bytes, True)
         else scan_bits rest [] payload_bytes)
      else Inl ValueError)"
proof -
  from assms have w: "w = butlast w @ [last w]" and l: "length (butlast w) = 7"
    by (cases w rule: rev_cases; simp)+
  have "scan_bits (w @ rest) [] acc = scan_bits (butlast w @ (last w # rest)) [] acc"
    using w by (metis append.assoc append_Cons append_Nil)
  also have "\<dots> = scan_bits (last w # rest) ([] @ butlast w) acc"
    by (rule scan_bits_fill) (simp add: assms)
  also have "\<dots> = (let byte = bits_to_byte w in
      if 0 \<le> byte \<and> byte < 256 then
        (let payload_bytes = acc @ [word_of_int byte] in
         if suffix delimiter_bytes payload_bytes
         then Inr (take (length payload_bytes - length delimiter_bytes) payload_bytes, True)
         else scan_bits rest [] payload_bytes)
      else Inl ValueError)"
    using w l assms by (simp add: Let_def suffix_iff_drop [of delimiter_bytes] del: scan_bits.simps(2) add: scan_bits.simps(2) [of "last w" rest "butlast w" acc])
  finally show ?thesis .
qed

lemma scan_bits_byte:
  "scan_bits (byte_bits (uint b) @ rest) [] acc =
     (let payload_bytes = acc @ [b] in
      if suffix delimiter_bytes payload_bytes
      then Inr (take (length payload_bytes - length delimiter_bytes) payload_bytes, True)
      else scan_bits rest [] payload_bytes)"
proof -
  have r: "0 \<le> uint b" "uint b < 256"
    using uint_bounded [of b] by simp_all
  show ?thesis
    unfolding scan_bits_group [OF length_byte_bits] bits_to_byte_byte_bits [OF r]
    using r by (simp add: Let_def)
qed

lemma scan_bits_bytes:
  "scan_bits (bytes_to_bits bs @ rest) [] acc =
     (case scan_bytes bs acc of
        (payload_bytes, True) \<Rightarrow> Inr (payload_bytes, True)
      | (payload_bytes, False) \<Rightarrow> scan_bits rest [] payload_bytes)"
proof (induction bs arbitrary: acc)
  case Nil
  then show ?case by simp
next
  case (Cons b bs)
  let ?acc' = "acc @ [b]"
  let ?hit = "Inr (take (length ?acc' - length delimiter_bytes) ?acc', True)
                :: py_exception + (byte list \<times> bool)"
  have "scan_bits (bytes_to_bits (b # bs) @ rest) [] acc =
      (if suffix delimiter_bytes ?acc' then ?hit
       else scan_bits (bytes_to_bits bs @ rest) [] ?acc')"
    by (simp only: bytes_to_bits.simps append_assoc scan_bits_byte Let_def)
  also have "\<dots> =
      (if suffix delimiter_bytes ?acc' then ?hit
       else (case scan_bytes bs ?acc' of
               (payload_bytes, True) \<Rightarrow> Inr (payload_bytes, True)
             | (payload_bytes, False) \<Rightarrow> scan_bits rest [] payload_bytes))"
    by (simp only: Cons.IH)
  also have "\<dots> =
      (case scan_bytes (b # bs) acc of
         (payload_bytes, True) \<Rightarrow> Inr (payload_bytes, True)
       | (payload_bytes, False) \<Rightarrow> scan_bits rest [] payload_bytes)"
    by (cases "suffix delimiter_bytes ?acc'")
       (simp_all only: scan_bytes.simps Let_def if_True if_False prod.case bool.case)
  finally show ?case .
qed

lemma scan_bytes_skip:
  "(\<And>k. 0 < k \<Longrightarrow> k \<le> length bs \<Longrightarrow> \<not> suffix delimiter_bytes (acc @ take k bs)) \<Longrightarrow>
   scan_bytes (bs @ rest) acc = scan_bytes rest (acc @ bs)"
proof (induction bs arbitrary: acc)
  case Nil
  then show ?case by simp
next
  case (Cons b bs)
  have one: "\<not> suffix delimiter_bytes (acc @ [b])"
    using Cons.prems [of 1] by simp
  have "scan_bytes (bs @ rest) (acc @ [b]) = scan_bytes rest ((acc @ [b]) @ bs)"
  proof (rule Cons.IH)
    fix k assume "0 < k" "k \<le> length bs"
    then show "\<not> suffix delimiter_bytes ((acc @ [b]) @ take k bs)"
      using Cons.prems [of "Suc k"] by simp
  qed
  with one show ?case by (simp add: Let_def del: suffix_snoc)
qed

lemma delimiter_no_border:
  assumes "0 < j" "j < 7"
  shows "\<not> suffix (take j delimiter_bytes) delimiter_bytes"
proof -
  from assms have "j = 1 \<or> j = 2 \<or> j = 3 \<or> j = 4 \<or> j = 5 \<or> j = 6" by arith
  then show ?thesis
    by (elim disjE) (simp_all add: delimiter_bytes_eq suffix_iff_drop)
qed

lemma scan_bytes_payload:
  assumes "\<not> sublist delimiter_bytes P"
  shows "scan_bytes (P @ delimiter_bytes @ rest) [] = (P, True)"
proof -
  let ?D = delimiter_bytes
  have D: "?D = butlast ?D @ [last ?D]" and lb: "length (butlast ?D) = 6"
    by (simp_all add: delimiter_bytes_eq)
  have nomatch: "\<not> suffix ?D ([] @ take k (P @ butlast ?D))"
    if k: "0 < k" "k \<le> length (P @ butlast ?D)" for k
  proof
    assume s: "suffix ?D ([] @ take k (P @ butlast ?D))"
    show False
    proof (cases "k \<le> length P")
      case True
      with s have "suffix ?D (take k P)" by simp
      then have "sublist ?D (take k P)" by (rule suffix_imp_sublist)
      moreover have "sublist (take k P) P" by (rule prefix_imp_sublist) (rule take_is_prefix)
      ultimately have "sublist ?D P" by (rule sublist_order.order_trans)
      with assms show False by contradiction
    next
      case False
      define j where "j = k - length P"
      from False k lb have j: "0 < j" "j < 7" by (simp_all add: j_def)
      have "take j (butlast ?D) = take j ?D"
        using j by (simp add: take_butlast length_delimiter_bytes)
      with False s have s': "suffix ?D (P @ take j ?D)"
        by (simp add: j_def)
      have "suffix (take j ?D) (P @ take j ?D)" by (rule suffixI) (rule refl)
      from suffix_length_suffix [OF this s'] have "suffix (take j ?D) ?D" by simp
      with delimiter_no_border [OF j] show False by contradiction
    qed
  qed
  have "scan_bytes (P @ ?D @ rest) [] = scan_bytes ((P @ butlast ?D) @ (last ?D # rest)) []"
    using D by (metis append.assoc append_Cons append_Nil)
  also have "\<dots> = scan_bytes (last ?D # rest) ([] @ (P @ butlast ?D))"
    by (rule scan_bytes_skip) (rule nomatch)
  also have "\<dots> = (P, True)"
    using D by (simp add: Let_def del: suffix_snoc) (metis D append.assoc suffixI)
  finally show ?thesis .
qed

subsection \<open>UTF-8\<close>

lemma join3: "c div 4096 * 4096 + c div 64 mod 64 * 64 + c mod 64 = (c::int)"
proof -
  have a: "c div 4096 = c div 64 div 64" by simp
  have "c div 64 div 64 * 64 + c div 64 mod 64 = c div 64" by simp
  then have "(c div 64 div 64 * 64 + c div 64 mod 64) * 64 + c mod 64 = c" by simp
  then have "c div 64 div 64 * 4096 + c div 64 mod 64 * 64 + c mod 64 = c"
    by (simp only: distrib_right mult.assoc)
  then show ?thesis by (simp only: a)
qed

lemma join4:
  "c div 262144 * 262144 + c div 4096 mod 64 * 4096 + c div 64 mod 64 * 64 + c mod 64 = (c::int)"
proof -
  have a: "c div 262144 = c div 4096 div 64" by simp
  have "c div 4096 div 64 * 64 + c div 4096 mod 64 = c div 4096" by simp
  then have "(c div 4096 div 64 * 64 + c div 4096 mod 64) * 4096 = c div 4096 * 4096" by simp
  then have "c div 4096 div 64 * 262144 + c div 4096 mod 64 * 4096 = c div 4096 * 4096"
    by (simp only: distrib_right mult.assoc)
  with join3 [of c] show ?thesis by (simp only: a)
qed

lemma uint_byte: "0 \<le> x \<Longrightarrow> x < 256 \<Longrightarrow> uint (word_of_int x :: byte) = x"
  by (simp add: uint_word_of_int take_bit_eq_mod)

lemma decode_step2:
  "0xC2 \<le> b0 \<Longrightarrow> b0 \<le> 0xDF \<Longrightarrow> is_cont b1 \<Longrightarrow> c = (b0 - 0xC0) * 64 + (b1 - 0x80) \<Longrightarrow>
   utf8_decode_ints (b0 # b1 # rest) = cons_char c (utf8_decode_ints rest)"
  by simp

lemma decode_step3:
  "0xE0 \<le> b0 \<Longrightarrow> b0 \<le> 0xEF \<Longrightarrow> is_cont b1 \<Longrightarrow> is_cont b2 \<Longrightarrow>
   c = (b0 - 0xE0) * 4096 + (b1 - 0x80) * 64 + (b2 - 0x80) \<Longrightarrow>
   0x800 \<le> c \<Longrightarrow> \<not> (0xD800 \<le> c \<and> c \<le> 0xDFFF) \<Longrightarrow>
   utf8_decode_ints (b0 # b1 # b2 # rest) = cons_char c (utf8_decode_ints rest)"
  by (simp add: Let_def)

lemma decode_step4:
  "0xF0 \<le> b0 \<Longrightarrow> b0 \<le> 0xF4 \<Longrightarrow> is_cont b1 \<Longrightarrow> is_cont b2 \<Longrightarrow> is_cont b3 \<Longrightarrow>
   c = (b0 - 0xF0) * 262144 + (b1 - 0x80) * 4096 + (b2 - 0x80) * 64 + (b3 - 0x80) \<Longrightarrow>
   0x10000 \<le> c \<Longrightarrow> c \<le> 0x10FFFF \<Longrightarrow>
   utf8_decode_ints (b0 # b1 # b2 # b3 # rest) = cons_char c (utf8_decode_ints rest)"
  by (simp add: Let_def)

lemma uint_lead:
  "0 \<le> k \<Longrightarrow> k < 32 \<Longrightarrow> uint (word_of_int (0xC0 + k) :: byte) = 0xC0 + k"
  "0 \<le> k \<Longrightarrow> k < 16 \<Longrightarrow> uint (word_of_int (0xE0 + k) :: byte) = 0xE0 + k"
  "0 \<le> k \<Longrightarrow> k < 5 \<Longrightarrow> uint (word_of_int (0xF0 + k) :: byte) = 0xF0 + k"
  by (rule uint_byte; simp)+

lemma uint_cont: "uint (word_of_int (0x80 + k mod 64) :: byte) = 0x80 + k mod 64"
  by (rule uint_byte) simp_all

lemma is_cont_mod: "is_cont (0x80 + k mod 64)"
  by (simp add: is_cont_def)

lemma decode_encoded_char:
  assumes "0 \<le> c" "c \<le> 0x10FFFF" and enc: "utf8_encode_char c = Inr bs"
  shows "utf8_decode_ints (map uint bs @ rest) = cons_char c (utf8_decode_ints rest)"
proof -
  consider (a) "c < 0x80" | (b) "0x80 \<le> c" "c < 0x800"
    | (c) "0x800 \<le> c" "c < 0x10000" "\<not> (0xD800 \<le> c \<and> c \<le> 0xDFFF)"
    | (d) "0x10000 \<le> c"
    using enc by (auto simp: utf8_encode_char_def split: if_splits)
  then show ?thesis
  proof cases
    case a
    with assms have "bs = [word_of_int c]" by (simp add: utf8_encode_char_def)
    with a assms show ?thesis by (simp add: uint_byte)
  next
    case b
    with enc have bs: "bs = [word_of_int (0xC0 + c div 64), word_of_int (0x80 + c mod 64)]"
      by (simp add: utf8_encode_char_def)
    from b have k: "0 \<le> c div 64" "c div 64 < 32" "2 \<le> c div 64" by simp_all
    have m: "map uint bs @ rest = (0xC0 + c div 64) # (0x80 + c mod 64) # rest"
      by (simp only: bs list.map uint_lead(1) [OF k(1,2)] uint_cont append_Cons append_Nil)
    show ?thesis
      unfolding m
      by (rule decode_step2) (use k in \<open>simp_all add: is_cont_mod del: utf8_decode_ints.simps\<close>)
  next
    case c
    with enc have bs: "bs = [word_of_int (0xE0 + c div 4096), word_of_int (0x80 + c div 64 mod 64),
             word_of_int (0x80 + c mod 64)]"
      by (simp add: utf8_encode_char_def)
    from c have k: "0 \<le> c div 4096" "c div 4096 < 16" by simp_all
    have m: "map uint bs @ rest =
        (0xE0 + c div 4096) # (0x80 + c div 64 mod 64) # (0x80 + c mod 64) # rest"
      by (simp only: bs list.map uint_lead(2) [OF k] uint_cont append_Cons append_Nil)
    have v: "c = (0xE0 + c div 4096 - 0xE0) * 4096 + (0x80 + c div 64 mod 64 - 0x80) * 64
         + (0x80 + c mod 64 - 0x80)"
      using join3 [of c] by simp
    show ?thesis
      unfolding m
      by (rule decode_step3 [OF _ _ is_cont_mod is_cont_mod v]) (use k c in simp_all)
  next
    case d
    with enc have bs: "bs = [word_of_int (0xF0 + c div 262144), word_of_int (0x80 + c div 4096 mod 64),
             word_of_int (0x80 + c div 64 mod 64), word_of_int (0x80 + c mod 64)]"
      by (simp add: utf8_encode_char_def)
    from d assms have k: "0 \<le> c div 262144" "c div 262144 < 5" by simp_all
    have m: "map uint bs @ rest =
        (0xF0 + c div 262144) # (0x80 + c div 4096 mod 64) # (0x80 + c div 64 mod 64)
          # (0x80 + c mod 64) # rest"
      by (simp only: bs list.map uint_lead(3) [OF k] uint_cont append_Cons append_Nil)
    have v: "c = (0xF0 + c div 262144 - 0xF0) * 262144 + (0x80 + c div 4096 mod 64 - 0x80) * 4096
         + (0x80 + c div 64 mod 64 - 0x80) * 64 + (0x80 + c mod 64 - 0x80)"
      using join4 [of c] by simp
    show ?thesis
      unfolding m
      by (rule decode_step4 [OF _ _ is_cont_mod is_cont_mod is_cont_mod v]) (use k d assms in simp_all)
  qed
qed

lemma cons_char_Inr [simp]: "cons_char c (Inr cs) = Inr (c # cs)"
  by (simp add: cons_char_def)

lemma utf8_roundtrip_ints:
  "is_str m \<Longrightarrow> utf8_encode m = Inr bs \<Longrightarrow> utf8_decode_ints (map uint bs) = Inr m"
proof (induction m arbitrary: bs)
  case Nil
  then show ?case by simp
next
  case (Cons c cs)
  from Cons.prems(2) obtain b1 b2 where
    e: "utf8_encode_char c = Inr b1" "utf8_encode cs = Inr b2" "bs = b1 @ b2"
    by (auto split: sum.splits)
  from Cons.prems(1) have c: "0 \<le> c" "c \<le> 0x10FFFF" and cs: "is_str cs"
    by (simp_all add: is_str_def)
  have "utf8_decode_ints (map uint bs) = utf8_decode_ints (map uint b1 @ map uint b2)"
    by (simp add: e(3))
  also have "\<dots> = cons_char c (utf8_decode_ints (map uint b2))"
    by (rule decode_encoded_char [OF c e(1)])
  also have "\<dots> = Inr (c # cs)"
    by (simp only: Cons.IH [OF cs e(2)] cons_char_Inr)
  finally show ?case .
qed

lemma utf8_roundtrip: "is_str m \<Longrightarrow> utf8_encode m = Inr bs \<Longrightarrow> utf8_decode bs = Inr m"
  by (simp add: utf8_decode_def utf8_roundtrip_ints)

subsection \<open>Encoding succeeds; the scan never raises\<close>

lemma length_apply_shift: "length (apply_shift b p) = length b"
  by (simp add: apply_shift_def Let_def)

lemma is_bits_bytes_to_bits: "is_bits (bytes_to_bits bs)"
  using byte_bits_is_bits by (induction bs) (simp_all add: is_bits_def)

lemma bytes_to_bits_append: "bytes_to_bits (xs @ ys) = bytes_to_bits xs @ bytes_to_bits ys"
  by (induction xs) simp_all

lemma length_stego_flat: "length bits \<le> length flat \<Longrightarrow> length (stego_flat flat bits) = length flat"
  by (simp add: stego_flat_def)

lemma stego_flat_range:
  assumes "\<forall>x\<in>set flat. 0 \<le> x \<and> x < 256" "is_bits bits"
  shows "\<forall>x\<in>set (stego_flat flat bits). 0 \<le> x \<and> x < 256"
proof
  fix x assume "x \<in> set (stego_flat flat bits)"
  then consider (a) "x \<in> set (map2 set_lsb (take (length bits) flat) bits)"
    | (b) "x \<in> set (drop (length bits) flat)" by (auto simp: stego_flat_def)
  then show "0 \<le> x \<and> x < 256"
  proof cases
    case a
    then obtain p b where pb: "(p, b) \<in> set (zip (take (length bits) flat) bits)" "x = set_lsb p b"
      by auto
    then have "p \<in> set flat" "b \<in> set bits"
      by (auto dest: set_zip_leftD set_zip_rightD in_set_takeD)
    with assms have "0 \<le> p" "p < 256" "b = 0 \<or> b = 1"
      by (auto simp: is_bits_def list_all_iff)
    from set_lsb_bounds [OF this] pb(2) show ?thesis by simp
  next
    case b
    then have "x \<in> set flat" by (rule in_set_dropD)
    with assms show ?thesis by simp
  qed
qed

lemma map2_lsb:
  "is_bits bits \<Longrightarrow> length xs = length bits \<Longrightarrow>
   map (\<lambda>p. p AND 1) (map2 set_lsb xs bits) = bits"
proof (induction xs bits rule: list_induct2')
  case (4 x xs b bs)
  then have "b = 0 \<or> b = 1" "is_bits bs" by (simp_all add: is_bits_def)
  with 4 show ?case by (simp add: set_lsb_bit del: and_one_eq)
qed simp_all

lemma stego_flat_lsb:
  assumes "is_bits bits" "length bits \<le> length flat"
  shows "map (\<lambda>p. p AND 1) (stego_flat flat bits) =
           bits @ map (\<lambda>p. p AND 1) (drop (length bits) flat)"
proof -
  have "length (take (length bits) flat) = length bits" using assms(2) by simp
  from map2_lsb [OF assms(1) this] show ?thesis
    by (simp add: stego_flat_def del: and_one_eq)
qed

lemma stego_flat_nth:
  assumes "is_bits bits" "length bits \<le> length flat" "i < length flat"
  shows "drop_bit 1 (stego_flat flat bits ! i) = drop_bit 1 (flat ! i)"
    and "i < length bits \<Longrightarrow> stego_flat flat bits ! i AND 1 = bits ! i"
    and "length bits \<le> i \<Longrightarrow> stego_flat flat bits ! i = flat ! i"
proof -
  have l: "length (map2 set_lsb (take (length bits) flat) bits) = length bits"
    using assms(2) by simp
  have in_bits: "stego_flat flat bits ! i = set_lsb (flat ! i) (bits ! i)" if "i < length bits"
    using that assms(2) by (simp add: stego_flat_def nth_append)
  have past: "stego_flat flat bits ! i = flat ! i" if "length bits \<le> i"
    using that assms(2,3) by (simp add: stego_flat_def nth_append)
  have b01: "bits ! i = 0 \<or> bits ! i = 1" if "i < length bits"
    using that assms(1) by (simp add: is_bits_def list_all_length)
  show "drop_bit 1 (stego_flat flat bits ! i) = drop_bit 1 (flat ! i)"
  proof (cases "i < length bits")
    case True
    then show ?thesis by (simp only: in_bits set_lsb_upper [OF b01])
  next
    case False
    then show ?thesis by (simp only: past not_less)
  qed
  show "i < length bits \<Longrightarrow> stego_flat flat bits ! i AND 1 = bits ! i"
    by (simp only: in_bits set_lsb_bit [OF b01])
  show "length bits \<le> i \<Longrightarrow> stego_flat flat bits ! i = flat ! i"
    by (rule past)
qed

lemma embed_bits_stego:
  "length bits \<le> length flat \<Longrightarrow> embed_bits 0 bits flat = Inr (stego_flat flat bits)"
  using embed_bits_append [of 0 bits flat] by (simp add: stego_flat_def)

lemma embed_bits_Inr_stego:
  assumes "embed_bits 0 bits flat = Inr flat'" "bits \<noteq> []"
  shows "length bits \<le> length flat \<and> flat' = stego_flat flat bits"
proof -
  from assms embed_bits_Inr_iff [of 0 bits flat] have "length bits \<le> length flat" by auto
  with embed_bits_stego [OF this] assms(1) show ?thesis by simp
qed

lemma encode_body_of_success:
  assumes "encode_message fs image_path msg output_path password = (res, fs')" "success res"
  shows "encode_body fs image_path msg output_path password = Inr (res, fs')"
  using assms
  by (cases "encode_body fs image_path msg output_path password")
     (auto simp: encode_message_def split: py_exception.splits)

lemma encode_success_elim:
  assumes "encode_message fs image_path msg output_path password = (res, fs')" "success res"
  obtains img payload flat' new_pixels where
    "files fs image_path = Some (ImageFile img)"
    "utf8_encode msg = Inr payload"
    "length (bytes_to_bits (apply_shift payload password @ delimiter_bytes))
       \<le> width img * height img * 3"
    "embed_bits 0 (bytes_to_bits (apply_shift payload password @ delimiter_bytes))
       (flatten (rgb_data img)) = Inr flat'"
    "regroup flat' = Inr new_pixels"
    "save_error fs output_path = None"
    "fs' = fs\<lparr>files := (files fs)(output_path \<mapsto>
             ImageFile (new_rgb_image (width img) (height img) new_pixels))\<rparr>"
    "res = \<lparr>success = True, message = MessageHidden,
            capacity = int (width img * height img * 3 div 8),
            used = int (length (apply_shift payload password @ delimiter_bytes))\<rparr>"
proof -
  note b = encode_body_of_success [OF assms]
  from b obtain img where i: "files fs image_path = Some (ImageFile img)"
    by (auto simp: encode_body_def Image_open_def split: option.splits stored_file.splits)
  from b i obtain payload where e: "utf8_encode msg = Inr payload"
    by (cases "utf8_encode msg") (auto simp: encode_body_def Image_open_def Let_def)
  let ?full = "apply_shift payload password @ delimiter_bytes"
  let ?bits = "bytes_to_bits ?full"
  note b' = b [unfolded encode_body_def Image_open_def i e utf8_encode_DELIMITER
      delimiter_bytes_eq [symmetric] Let_def, simplified]
  show ?thesis
  proof (cases "length ?bits \<le> width img * height img * 3")
    case False
    with b' assms(2) show ?thesis by (auto split: if_splits)
  next
    case cap: True
    show ?thesis
    proof (cases "embed_bits 0 ?bits (flatten (rgb_data img))")
      case (Inl x)
      with b' cap show ?thesis by simp
    next
      case emb: (Inr flat')
      show ?thesis
      proof (cases "regroup flat'")
        case (Inl x)
        with b' cap emb show ?thesis by simp
      next
        case rg: (Inr new_pixels)
        show ?thesis
        proof (cases "save_error fs output_path")
          case (Some x)
          with b' cap emb rg show ?thesis by (simp add: Image_save_def)
        next
          case None
          with b' cap emb rg have
            "res = \<lparr>success = True, message = MessageHidden,
               capacity = int (width img * height img * 3 div 8),
               used = int (length ?full)\<rparr>"
            "fs' = fs\<lparr>files := (files fs)(output_path \<mapsto>
               ImageFile (new_rgb_image (width img) (height img) new_pixels))\<rparr>"
            by (auto simp: Image_save_def)
          with that [OF i e cap emb rg None] show ?thesis by blast
        qed
      qed
    qed
  qed
qed

lemma encode_message_ok:
  assumes img: "files fs image_path = Some (ImageFile img)" and wf: "wf_image img"
    and enc: "utf8_encode msg = Inr payload"
    and cap: "length (bytes_to_bits (apply_shift payload password @ delimiter_bytes))
                \<le> width img * height img * 3"
    and sv: "save_error fs output_path = None"
  shows "\<exists>out. encode_message fs image_path msg output_path password =
           (\<lparr>success = True, message = MessageHidden,
             capacity = int (width img * height img * 3 div 8),
             used = int (length (apply_shift payload password @ delimiter_bytes))\<rparr>,
            fs\<lparr>files := (files fs)(output_path \<mapsto> ImageFile out)\<rparr>)
         \<and> width out = width img \<and> height out = height img
         \<and> flatten (rgb_data out) =
             stego_flat (flatten (rgb_data img))
               (bytes_to_bits (apply_shift payload password @ delimiter_bytes))"
proof -
  let ?bits = "bytes_to_bits (apply_shift payload password @ delimiter_bytes)"
  let ?flat = "flatten (rgb_data img)"
  have lf: "length ?flat = 3 * (width img * height img)"
    using wf by (simp add: length_flatten wf_image_def)
  with cap have le: "length ?bits \<le> length ?flat" by simp
  have emb: "embed_bits 0 ?bits ?flat = Inr (stego_flat ?flat ?bits)"
    by (rule embed_bits_stego [OF le])
  have "length (stego_flat ?flat ?bits) = 3 * (width img * height img)"
    by (simp only: length_stego_flat [OF le] lf)
  from regroup_total [OF this] obtain new_pixels where
    rg: "regroup (stego_flat ?flat ?bits) = Inr new_pixels" ..
  have rng: "\<forall>x\<in>set (stego_flat ?flat ?bits). 0 \<le> x \<and> x < 256"
    by (rule stego_flat_range) (use flatten_range is_bits_bytes_to_bits in blast)+
  let ?out = "new_rgb_image (width img) (height img) new_pixels"
  have fl: "flatten (rgb_data ?out) = stego_flat ?flat ?bits"
    using flatten_regroup [OF rg rng] by (simp add: new_rgb_image_def)
  have "encode_message fs image_path msg output_path password =
           (\<lparr>success = True, message = MessageHidden,
             capacity = int (width img * height img * 3 div 8),
             used = int (length (apply_shift payload password @ delimiter_bytes))\<rparr>,
            fs\<lparr>files := (files fs)(output_path \<mapsto> ImageFile ?out)\<rparr>)"
    using cap
    by (simp add: encode_message_def encode_body_def Image_open_def Image_save_def img enc sv
        utf8_encode_DELIMITER delimiter_bytes_eq [symmetric] Let_def emb rg)
  moreover have "width ?out = width img" "height ?out = height img"
    by (simp_all add: new_rgb_image_def)
  ultimately show ?thesis using fl by blast
qed

lemma foldl_bits_bounds:
  "is_bits w \<Longrightarrow> 0 \<le> a \<Longrightarrow>
   0 \<le> foldl (\<lambda>byte bit_val. push_bit 1 byte OR bit_val) a w
   \<and> foldl (\<lambda>byte bit_val. push_bit 1 byte OR bit_val) a w < (a + 1) * 2 ^ length w"
proof (induction w arbitrary: a)
  case Nil
  then show ?case by simp
next
  case (Cons b w)
  from Cons.prems have b: "b = 0 \<or> b = 1" and w: "is_bits w" by (simp_all add: is_bits_def)
  have step: "push_bit 1 a OR b = 2 * a + b" by (rule shift_or_bit [OF b])
  from b Cons.prems have nn: "0 \<le> 2 * a + b" by auto
  let ?r = "foldl (\<lambda>byte bit_val. push_bit 1 byte OR bit_val) (2 * a + b) w"
  from Cons.IH [OF w nn]
  have ge: "0 \<le> ?r" and lt: "?r < (2 * a + b + 1) * 2 ^ length w" by blast+
  have le: "(2 * a + b + 1) * 2 ^ length w \<le> (a + 1) * 2 ^ length (b # w)"
  proof -
    from b have "2 * a + b + 1 \<le> (a + 1) * 2" by auto
    then have "(2 * a + b + 1) * 2 ^ length w \<le> ((a + 1) * 2) * 2 ^ length w"
      by (rule mult_right_mono) simp
    then show ?thesis by (simp add: mult.assoc)
  qed
  from lt le have "?r < (a + 1) * 2 ^ length (b # w)" by (rule less_le_trans)
  with ge show ?case by (simp only: foldl.simps step)
qed

lemma bits_to_byte_bounds:
  "is_bits w \<Longrightarrow> length w = 8 \<Longrightarrow> 0 \<le> bits_to_byte w \<and> bits_to_byte w < 256"
  using foldl_bits_bounds [of w 0] by (simp add: bits_to_byte_def)

lemma scan_bits_total:
  "is_bits raw \<Longrightarrow> is_bits buffer \<Longrightarrow> length buffer < 8 \<Longrightarrow>
   \<exists>q found. scan_bits raw buffer acc = Inr (q, found)"
proof (induction raw arbitrary: buffer acc)
  case Nil
  show ?case by (simp only: scan_bits.simps) blast
next
  case (Cons b raw)
  from Cons.prems have raw: "is_bits raw" and buf: "is_bits (buffer @ [b])"
    by (simp_all add: is_bits_def)
  show ?case
  proof (cases "length (buffer @ [b]) = 8")
    case True
    from bits_to_byte_bounds [OF buf True] Cons.IH [OF raw, of "[]"] True
    show ?thesis by (auto simp add: Let_def is_bits_def)
  next
    case False
    with Cons.prems have "length (buffer @ [b]) < 8" by simp
    from Cons.IH [OF raw buf this] False show ?thesis by (simp add: Let_def)
  qed
qed

subsection \<open>Decoding never raises\<close>

lemma is_bits_lsb: "is_bits (map (\<lambda>p. p AND 1) flat)"
  using and_one_cases by (induction flat) (simp_all add: is_bits_def del: and_one_eq)

lemma cons_char_exc: "cons_char c r = Inl e \<Longrightarrow> r = Inl e"
  by (simp add: cons_char_def split: sum.splits)

lemma is_step_fail: "is_step bs (Inl UnicodeDecodeError)"
  by (simp add: is_step_def)

lemma is_step_cons: "length rest < length bs \<Longrightarrow> is_step bs (cons_char c (utf8_decode_ints rest))"
  by (auto simp add: is_step_def)

lemma is_step_if: "(P \<Longrightarrow> is_step bs x) \<Longrightarrow> (\<not> P \<Longrightarrow> is_step bs y) \<Longrightarrow> is_step bs (if P then x else y)"
  by simp

lemma decode_step: "is_step (b0 # bs) (utf8_decode_ints (b0 # bs))"
  unfolding utf8_decode_ints.simps Let_def
  by (intro is_step_if is_step_fail is_step_cons; (simp split: list.splits)?)
     (auto split: list.splits intro!: is_step_fail is_step_cons is_step_if)

lemma utf8_decode_ints_exc: "utf8_decode_ints bs = Inl e \<Longrightarrow> e = UnicodeDecodeError"
proof (induction bs arbitrary: e rule: length_induct)
  case (1 bs)
  show ?case
  proof (cases bs)
    case Nil
    with 1 show ?thesis by simp
  next
    case (Cons b0 bs')
    from decode_step [of b0 bs'] consider
      (fail) "utf8_decode_ints (b0 # bs') = Inl UnicodeDecodeError"
      | (more) c rest where "length rest < length (b0 # bs')"
          "utf8_decode_ints (b0 # bs') = cons_char c (utf8_decode_ints rest)"
      unfolding is_step_def by blast
    then show ?thesis
    proof cases
      case fail
      with 1(2) Cons show ?thesis by simp
    next
      case more
      with 1(2) Cons have "cons_char c (utf8_decode_ints rest) = Inl e" by simp
      then have "utf8_decode_ints rest = Inl e" by (rule cons_char_exc)
      with 1(1) more(1) Cons show ?thesis by blast
    qed
  qed
qed

lemma decode_text_eq:
  "decode_text q = Inr (case utf8_decode q of Inr t \<Rightarrow> t | Inl e \<Rightarrow> latin1_decode q)"
proof (cases "utf8_decode q")
  case (Inl e)
  then have "e = UnicodeDecodeError"
    unfolding utf8_decode_def by (rule utf8_decode_ints_exc)
  with Inl show ?thesis by (simp add: decode_text_def)
next
  case (Inr t)
  then show ?thesis by (simp add: decode_text_def)
qed

lemma decode_message_image:
  assumes "files fs image_path = Some (ImageFile img)"
  shows "decode_message fs image_path password =
     (case scan_bits (map (\<lambda>p. p AND 1) (flatten (rgb_data img))) [] [] of
        Inr (q, True) \<Rightarrow>
          \<lparr>dec_success = True, dec_message = MessageExtracted,
           secret = Some (case utf8_decode (reverse_shift q password) of
                            Inr t \<Rightarrow> t | Inl e \<Rightarrow> latin1_decode (reverse_shift q password))\<rparr>
      | Inr (q, False) \<Rightarrow>
          \<lparr>dec_success = False, dec_message = NoHiddenMessage, secret = None\<rparr>
      | Inl e \<Rightarrow> \<lparr>dec_success = False, dec_message = ErrorExc e, secret = None\<rparr>)"
proof -
  obtain q found where
    sc: "scan_bits (map (\<lambda>p. p AND 1) (flatten (rgb_data img))) [] [] = Inr (q, found)"
    using scan_bits_total [OF is_bits_lsb, of "[]" "flatten (rgb_data img)" "[]"]
    by (auto simp: is_bits_def)
  show ?thesis
    using sc
    by (cases found)
       (simp_all add: decode_message_def decode_body_def Image_open_def assms Let_def
          decode_text_eq del: and_one_eq)
qed

subsection \<open>Decoding an encoded image\<close>

lemma scan_bytes_hit:
  "suffix delimiter_bytes (acc @ bs) \<Longrightarrow> bs \<noteq> [] \<Longrightarrow> snd (scan_bytes bs acc)"
proof (induction bs arbitrary: acc)
  case Nil
  then show ?case by simp
next
  case (Cons b bs)
  show ?case
  proof (cases "suffix delimiter_bytes (acc @ [b])")
    case True
    then show ?thesis by (simp add: Let_def del: suffix_snoc)
  next
    case False
    with Cons.prems have "bs \<noteq> []" by auto
    moreover from Cons.prems have "suffix delimiter_bytes ((acc @ [b]) @ bs)" by simp
    ultimately have "snd (scan_bytes bs (acc @ [b]))" by (rule Cons.IH [rotated])
    with False show ?thesis by (simp add: Let_def del: suffix_snoc)
  qed
qed

lemma scan_bytes_full_hit: "snd (scan_bytes (P @ delimiter_bytes) [])"
  by (rule scan_bytes_hit) (simp_all add: suffix_def delimiter_bytes_eq)

subsection \<open>Concrete inputs\<close>

lemma wf_solid_rgb: "wf_image (solid_rgb w h colour)"
  by (simp add: wf_image_def solid_rgb_def)

lemma solid_rgb_size: "width (solid_rgb w h colour) = w" "height (solid_rgb w h colour) = h"
  by (simp_all add: solid_rgb_def)

lemma enc1: "utf8_encode (map of_char ''a<<END>>b'') = Inr [97, 60, 60, 69, 78, 68, 62, 62, 98]"
  by (simp add: utf8_encode_char_def)

lemma sb1: "scan_bytes ([97, 60, 60, 69, 78, 68, 62, 62, 98] @ delimiter_bytes) [] = ([97], True)"
  by (simp add: delimiter_bytes_eq Let_def suffix_iff_drop del: suffix_snoc)

lemma test_message_bytes:
  "utf8_encode (map of_char ''this is a secret message!! nobody can see this '' @ [0x1F510]) =
     Inr [116, 104, 105, 115, 32, 105, 115, 32, 97, 32, 115, 101, 99, 114, 101, 116, 32, 109,
          101, 115, 115, 97, 103, 101, 33, 33, 32, 110, 111, 98, 111, 100, 121, 32, 99, 97,
          110, 32, 115, 101, 101, 32, 116, 104, 105, 115, 32, 240, 159, 148, 144]"
  by (simp add: utf8_encode_char_def)

lemma test_message_shifted:
  "apply_shift
     [116, 104, 105, 115, 32, 105, 115, 32, 97, 32, 115, 101, 99, 114, 101, 116, 32, 109,
      101, 115, 115, 97, 103, 101, 33, 33, 32, 110, 111, 98, 111, 100, 121, 32, 99, 97,
      110, 32, 115, 101, 101, 32, 116, 104, 105, 115, 32, 240, 159, 148, 144]
     (map of_char ''hunter2'') =
   [60, 48, 49, 59, 232, 49, 59, 232, 41, 232, 59, 45, 43, 58, 45, 60, 232, 53, 45, 59, 59,
    41, 47, 45, 233, 233, 232, 54, 55, 42, 55, 44, 65, 232, 43, 41, 54, 232, 59, 45, 45, 232,
    60, 48, 49, 59, 232, 184, 103, 92, 88]"
  by (simp add: apply_shift_def password_shift_def)

lemma enc_hi: "utf8_encode (map of_char ''hi'') = Inr [104, 105]"
  by (simp add: utf8_encode_char_def)

subsection \<open>Password shift as a function of the checksum\<close>

lemma apply_shift_eq:
  "apply_shift b p = map (\<lambda>x. word_of_int ((uint x + password_shift p) mod 256)) b"
proof (cases "p = []")
  case True
  then show ?thesis
    by (simp add: apply_shift_def password_shift_def byte_of_uint_mod)
next
  case False
  then show ?thesis by (simp add: apply_shift_def Let_def)
qed

lemma reverse_shift_eq:
  "reverse_shift b p = map (\<lambda>x. word_of_int ((uint x - password_shift p) mod 256)) b"
proof (cases "p = []")
  case True
  then show ?thesis
    by (simp add: reverse_shift_def password_shift_def byte_of_uint_mod)
next
  case False
  then show ?thesis by (simp add: reverse_shift_def Let_def)
qed

lemma scan_plain_image:
  "scan_bits (map (\<lambda>p. p AND 1) (flatten (rgb_data plain_image))) [] [] = Inr ([0], False)"
  by (simp add: plain_image_def bits_to_byte_def Let_def delimiter_bytes_eq)

lemma scan_garbled_image:
  "scan_bits (map (\<lambda>p. p AND 1) (flatten (rgb_data garbled_image))) [] [] = Inr ([255], True)"
  by (simp add: garbled_image_def bits_to_byte_def Let_def delimiter_bytes_eq)

lemma utf8_decode_255: "utf8_decode [255] = Inl UnicodeDecodeError"
  by (simp add: utf8_decode_def)

subsection \<open>What the scan returns\<close>

lemma horner_step:
  assumes "b = 0 \<or> b = 1"
  shows "(2 * a + b) mod 2 = (b::int)" and "(2 * a + b) div 2 = a"
  using assms by auto

lemma byte_bits_bits_to_byte:
  assumes "is_bits w" "length w = 8"
  shows "byte_bits (bits_to_byte w) = w"
proof -
  from assms(2) obtain b7 b6 b5 b4 b3 b2 b1 b0 where w: "w = [b7, b6, b5, b4, b3, b2, b1, b0]"
    by (auto simp: eval_nat_numeral length_Suc_conv)
  from assms(1) have b: "b7 = 0 \<or> b7 = 1" "b6 = 0 \<or> b6 = 1" "b5 = 0 \<or> b5 = 1" "b4 = 0 \<or> b4 = 1"
    "b3 = 0 \<or> b3 = 1" "b2 = 0 \<or> b2 = 1" "b1 = 0 \<or> b1 = 1" "b0 = 0 \<or> b0 = 1"
    by (simp_all add: w is_bits_def)
  define x1 where "x1 = 2 * b7 + b6"
  define x2 where "x2 = 2 * x1 + b5"
  define x3 where "x3 = 2 * x2 + b4"
  define x4 where "x4 = 2 * x3 + b3"
  define x5 where "x5 = 2 * x4 + b2"
  define x6 where "x6 = 2 * x5 + b1"
  define x7 where "x7 = 2 * x6 + b0"
  have byte: "bits_to_byte w = x7"
    unfolding w bits_to_byte_def foldl.simps
    by (simp only: shift_or_bit b x1_def x2_def x3_def x4_def x5_def x6_def x7_def) simp
  have d1: "x7 div 2 = x6" and m0: "x7 mod 2 = b0"
    unfolding x7_def using horner_step [OF b(8)] by simp_all
  have d2: "x7 div 4 = x5" and m1: "x7 div 2 mod 2 = b1"
  proof -
    have "x7 div 4 = x7 div 2 div 2" by simp
    then show "x7 div 4 = x5" unfolding d1 x6_def using horner_step [OF b(7)] by simp
    show "x7 div 2 mod 2 = b1" unfolding d1 x6_def using horner_step [OF b(7)] by simp
  qed
  have d3: "x7 div 8 = x4" and m2: "x7 div 4 mod 2 = b2"
  proof -
    have "x7 div 8 = x7 div 4 div 2" by simp
    then show "x7 div 8 = x4" unfolding d2 x5_def using horner_step [OF b(6)] by simp
    show "x7 div 4 mod 2 = b2" unfolding d2 x5_def using horner_step [OF b(6)] by simp
  qed
  have d4: "x7 div 16 = x3" and m3: "x7 div 8 mod 2 = b3"
  proof -
    have "x7 div 16 = x7 div 8 div 2" by simp
    then show "x7 div 16 = x3" unfolding d3 x4_def using horner_step [OF b(5)] by simp
    show "x7 div 8 mod 2 = b3" unfolding d3 x4_def using horner_step [OF b(5)] by simp
  qed
  have d5: "x7 div 32 = x2" and m4: "x7 div 16 mod 2 = b4"
  proof -
    have "x7 div 32 = x7 div 16 div 2" by simp
    then show "x7 div 32 = x2" unfolding d4 x3_def using horner_step [OF b(4)] by simp
    show "x7 div 16 mod 2 = b4" unfolding d4 x3_def using horner_step [OF b(4)] by simp
  qed
  have d6: "x7 div 64 = x1" and m5: "x7 div 32 mod 2 = b5"
  proof -
    have "x7 div 64 = x7 div 32 div 2" by simp
    then show "x7 div 64 = x1" unfolding d5 x2_def using horner_step [OF b(3)] by simp
    show "x7 div 32 mod 2 = b5" unfolding d5 x2_def using horner_step [OF b(3)] by simp
  qed
  have d7: "x7 div 128 = b7" and m6: "x7 div 64 mod 2 = b6"
  proof -
    have "x7 div 128 = x7 div 64 div 2" by simp
    then show "x7 div 128 = b7" unfolding d6 x1_def using horner_step [OF b(2)] by simp
    show "x7 div 64 mod 2 = b6" unfolding d6 x1_def using horner_step [OF b(2)] by simp
  qed
  have m7: "x7 div 128 mod 2 = b7"
    unfolding d7 using b(1) by auto
  have "byte_bits x7 = [x7 div 128 mod 2, x7 div 64 mod 2, x7 div 32 mod 2, x7 div 16 mod 2,
      x7 div 8 mod 2, x7 div 4 mod 2, x7 div 2 mod 2, x7 mod 2]"
    by (simp add: byte_bits_def and_one_eq drop_bit_eq_div)
  then have "byte_bits x7 = w"
    by (simp only: m0 m1 m2 m3 m4 m5 m6 m7 w)
  then show ?thesis
    by (simp only: byte)
qed

lemma scan_bits_step:
  "scan_bits (b # raw) buffer acc =
     (if length (buffer @ [b]) = 8 then
        (if 0 \<le> bits_to_byte (buffer @ [b]) \<and> bits_to_byte (buffer @ [b]) < 256 then
           (if suffix delimiter_bytes (acc @ [word_of_int (bits_to_byte (buffer @ [b]))])
            then Inr (take (length (acc @ [word_of_int (bits_to_byte (buffer @ [b])) :: byte])
                             - length delimiter_bytes)
                        (acc @ [word_of_int (bits_to_byte (buffer @ [b]))]), True)
            else scan_bits raw [] (acc @ [word_of_int (bits_to_byte (buffer @ [b]))]))
         else Inl ValueError)
      else scan_bits raw (buffer @ [b]) acc)"
  by (simp add: Let_def suffix_iff_drop [of delimiter_bytes] del: suffix_snoc)

lemma scan_bits_found_prefix:
  "scan_bits raw buffer acc = Inr (q, True) \<Longrightarrow> is_bits raw \<Longrightarrow> is_bits buffer \<Longrightarrow>
   length buffer < 8 \<Longrightarrow>
   \<exists>k. bytes_to_bits (q @ delimiter_bytes) = bytes_to_bits acc @ buffer @ take k raw"
proof (induction raw arbitrary: buffer acc)
  case Nil
  then show ?case by simp
next
  case (Cons b raw)
  from Cons.prems have raw: "is_bits raw" and buf: "is_bits (buffer @ [b])"
    by (simp_all add: is_bits_def)
  show ?case
  proof (cases "length (buffer @ [b]) = 8")
    case full: True
    let ?byte = "bits_to_byte (buffer @ [b])"
    let ?acc' = "acc @ [word_of_int ?byte :: byte]"
    from bits_to_byte_bounds [OF buf full] have rng: "0 \<le> ?byte" "?byte < 256" by simp_all
    have bk: "bytes_to_bits ?acc' = bytes_to_bits acc @ buffer @ [b]"
      using byte_bits_bits_to_byte [OF buf full] rng
      by (simp add: bytes_to_bits_append uint_byte)
    show ?thesis
    proof (cases "suffix delimiter_bytes ?acc'")
      case True
      with Cons.prems(1) [unfolded scan_bits_step] full rng
      have "q = take (length ?acc' - length delimiter_bytes) ?acc'"
        by (simp only: if_True simp_thms sum.inject prod.inject)
      moreover from True have "drop (length ?acc' - length delimiter_bytes) ?acc' = delimiter_bytes"
        by (simp only: suffix_iff_drop)
      ultimately have "q @ delimiter_bytes = ?acc'"
        by (metis append_take_drop_id)
      with bk have "bytes_to_bits (q @ delimiter_bytes)
          = bytes_to_bits acc @ buffer @ take 1 (b # raw)" by simp
      then show ?thesis ..
    next
      case False
      with Cons.prems(1) [unfolded scan_bits_step] full rng
      have "scan_bits raw [] ?acc' = Inr (q, True)"
        by (simp only: if_True if_False simp_thms)
      from Cons.IH [OF this raw] obtain k where
        "bytes_to_bits (q @ delimiter_bytes) = bytes_to_bits ?acc' @ [] @ take k raw"
        by (auto simp: is_bits_def)
      with bk have "bytes_to_bits (q @ delimiter_bytes)
          = bytes_to_bits acc @ buffer @ take (Suc k) (b # raw)" by simp
      then show ?thesis ..
    qed
  next
    case False
    with Cons.prems have lt: "length (buffer @ [b]) < 8" by simp
    from False Cons.prems(1) [unfolded scan_bits_step]
    have "scan_bits raw (buffer @ [b]) acc = Inr (q, True)"
      by (simp only: if_False)
    from Cons.IH [OF this raw buf lt] obtain k where
      "bytes_to_bits (q @ delimiter_bytes) = bytes_to_bits acc @ (buffer @ [b]) @ take k raw"
      by blast
    then have "bytes_to_bits (q @ delimiter_bytes)
          = bytes_to_bits acc @ buffer @ take (Suc k) (b # raw)" by simp
    then show ?thesis ..
  qed
qed

subsection \<open>Successful encodes\<close>

lemma encode_success_out:
  assumes "encode_message fs image_path msg output_path password = (res, fs')"
    and "success res"
  obtains img out payload where
    "files fs image_path = Some (ImageFile img)"
    "files fs' output_path = Some (ImageFile out)" "utf8_encode msg = Inr payload"
    "length (bytes_to_bits (apply_shift payload password @ delimiter_bytes))
       \<le> length (flatten (rgb_data img))"
    "flatten (rgb_data out) =
       stego_flat (flatten (rgb_data img))
         (bytes_to_bits (apply_shift payload password @ delimiter_bytes))"
    "save_error fs output_path = None"
    "\<forall>p. p \<noteq> output_path \<longrightarrow> files fs' p = files fs p"
proof -
  from assms obtain img payload flat' new_pixels where
    i: "files fs image_path = Some (ImageFile img)"
    and e: "utf8_encode msg = Inr payload"
    and emb: "embed_bits 0 (bytes_to_bits (apply_shift payload password @ delimiter_bytes))
       (flatten (rgb_data img)) = Inr flat'"
    and rg: "regroup flat' = Inr new_pixels"
    and sv: "save_error fs output_path = None"
    and fs': "fs' = fs\<lparr>files := (files fs)(output_path \<mapsto>
                ImageFile (new_rgb_image (width img) (height img) new_pixels))\<rparr>"
    by (rule encode_success_elim)
  let ?bits = "bytes_to_bits (apply_shift payload password @ delimiter_bytes)"
  let ?flat = "flatten (rgb_data img)"
  let ?out = "new_rgb_image (width img) (height img) new_pixels"
  have ne: "?bits \<noteq> []"
    using length_bytes_to_bits [of "apply_shift payload password @ delimiter_bytes"]
    by (auto simp: length_delimiter_bytes)
  from embed_bits_Inr_stego [OF emb ne]
  have le: "length ?bits \<le> length ?flat" and f': "flat' = stego_flat ?flat ?bits" by simp_all
  have rng: "\<forall>x\<in>set flat'. 0 \<le> x \<and> x < 256"
    unfolding f' by (rule stego_flat_range) (use flatten_range is_bits_bytes_to_bits in blast)+
  have fl: "flatten (rgb_data ?out) = stego_flat ?flat ?bits"
    using flatten_regroup [OF rg rng] by (simp add: new_rgb_image_def f')
  have o: "files fs' output_path = Some (ImageFile ?out)" by (simp add: fs')
  have fr: "\<forall>p. p \<noteq> output_path \<longrightarrow> files fs' p = files fs p" by (simp add: fs')
  show ?thesis by (rule that [OF i o e le fl sv fr])
qed

text \<open>Decoding what a successful encode wrote: the scan stops at the first delimiter of
  the embedded bytes, and the bytes before it are shifted back and decoded.\<close>

lemma decode_encoded:
  assumes e: "encode_message fs image_path msg output_path password = (res, fs')"
    and ok: "success res"
    and enc: "utf8_encode msg = Inr payload"
  shows "decode_message fs' output_path password' =
         \<lparr>dec_success = True, dec_message = MessageExtracted,
          secret = Some
            (let q = reverse_shift
                       (fst (scan_bytes (apply_shift payload password @ delimiter_bytes) []))
                       password'
             in case utf8_decode q of Inr t \<Rightarrow> t | Inl e \<Rightarrow> latin1_decode q)\<rparr>"
proof (rule encode_success_out [OF e ok])
  fix img out payload'
  assume o: "files fs' output_path = Some (ImageFile out)"
    and e': "utf8_encode msg = Inr payload'"
    and lf': "length (bytes_to_bits (apply_shift payload' password @ delimiter_bytes))
       \<le> length (flatten (rgb_data img))"
    and fl': "flatten (rgb_data out) =
       stego_flat (flatten (rgb_data img))
         (bytes_to_bits (apply_shift payload' password @ delimiter_bytes))"
  let ?full = "apply_shift payload password @ delimiter_bytes"
  let ?bits = "bytes_to_bits ?full"
  let ?flat = "flatten (rgb_data img)"
  from e' enc have p: "payload' = payload" by simp
  have lf: "length ?bits \<le> length ?flat" using lf' by (simp only: p)
  have fl: "flatten (rgb_data out) = stego_flat ?flat ?bits" using fl' by (simp only: p)
  have raw: "map (\<lambda>p. p AND 1) (flatten (rgb_data out)) =
      ?bits @ map (\<lambda>p. p AND 1) (drop (length ?bits) ?flat)"
    unfolding fl by (rule stego_flat_lsb [OF is_bits_bytes_to_bits lf])
  obtain q where q: "scan_bytes ?full [] = (q, True)"
    using scan_bytes_full_hit [of "apply_shift payload password"]
    by (cases "scan_bytes ?full []") auto
  have sc: "scan_bits (map (\<lambda>p. p AND 1) (flatten (rgb_data out))) [] [] = Inr (q, True)"
    unfolding raw scan_bits_bytes q by simp
  show ?thesis
    unfolding decode_message_image [where fs = fs' and image_path = output_path, OF o] sc q
    by (simp add: Let_def)
qed

text \<open>When an encode succeeds: the carrier opens, the message encodes, the bits fit, and
  the output path can be written.\<close>

lemma encode_succeeds:
  assumes img: "files fs image_path = Some (ImageFile img)" and wf: "wf_image img"
    and enc: "utf8_encode msg = Inr payload"
    and cap: "8 * (length payload + length delimiter_bytes) \<le> width img * height img * 3"
    and sv: "save_error fs output_path = None"
  shows "success (fst (encode_message fs image_path msg output_path password))"
proof -
  have cap': "length (bytes_to_bits (apply_shift payload password @ delimiter_bytes))
       \<le> width img * height img * 3"
    using cap by (simp add: length_bytes_to_bits length_apply_shift)
  from encode_message_ok [where fs=fs and image_path=image_path and output_path=output_path,
      OF img wf enc cap' sv]
  show ?thesis by auto
qed

text \<open>A failing \<^verbatim>\<open>save\<close>: the missing directory of the output path is reported with the
  message of a missing carrier, and nothing is written.\<close>

lemma encode_save_fails:
  assumes img: "files fs image_path = Some (ImageFile img)" and wf: "wf_image img"
    and enc: "utf8_encode msg = Inr payload"
    and cap: "8 * (length payload + length delimiter_bytes) \<le> width img * height img * 3"
    and sv: "save_error fs output_path = Some exc"
  shows "encode_message fs image_path msg output_path password =
           (\<lparr>success = False,
             message = (if exc = FileNotFoundError then ImageFileNotFound else ErrorExc exc),
             capacity = 0, used = 0\<rparr>, fs)"
proof -
  let ?bits = "bytes_to_bits (apply_shift payload password @ delimiter_bytes)"
  let ?flat = "flatten (rgb_data img)"
  have cap': "length ?bits \<le> width img * height img * 3"
    using cap by (simp add: length_bytes_to_bits length_apply_shift)
  have lf: "length ?flat = 3 * (width img * height img)"
    using wf by (simp add: length_flatten wf_image_def)
  with cap' have le: "length ?bits \<le> length ?flat" by simp
  have emb: "embed_bits 0 ?bits ?flat = Inr (stego_flat ?flat ?bits)"
    by (rule embed_bits_stego [OF le])
  have "length (stego_flat ?flat ?bits) = 3 * (width img * height img)"
    by (simp only: length_stego_flat [OF le] lf)
  from regroup_total [OF this] obtain new_pixels where
    rg: "regroup (stego_flat ?flat ?bits) = Inr new_pixels" ..
  show ?thesis
    using cap'
    by (cases exc)
       (simp_all add: encode_message_def encode_body_def Image_open_def Image_save_def img enc
          sv utf8_encode_DELIMITER delimiter_bytes_eq [symmetric] Let_def emb rg)
qed

lemma image_fs_files [simp]: "files (image_fs path img) path = Some (ImageFile img)"
  by (simp add: image_fs_def)

lemma image_fs_save [simp]: "save_error (image_fs path img) p = None"
  by (simp add: image_fs_def)

subsection \<open>The shift as byte addition\<close>

lemma word_of_int_mod_256: "(word_of_int (x mod 256) :: byte) = word_of_int x"
  by (simp add: word_of_int_eq_iff take_bit_eq_mod)

lemma shift_byte_add: "(word_of_int ((uint b + s) mod 256) :: byte) = b + word_of_int s"
  by (simp add: word_of_int_mod_256)

lemma shift_byte_sub: "(word_of_int ((uint b - s) mod 256) :: byte) = b - word_of_int s"
  by (simp add: word_of_int_mod_256)

lemma apply_shift_word:
  "apply_shift b p = map (\<lambda>x. x + word_of_int (password_shift p)) b"
  by (simp only: apply_shift_eq shift_byte_add)

lemma reverse_shift_word:
  "reverse_shift b p = map (\<lambda>x. x - word_of_int (password_shift p)) b"
  by (simp only: reverse_shift_eq shift_byte_sub)

lemma password_shift_range: "0 \<le> password_shift p" "password_shift p < 256"
  by (simp_all add: password_shift_def)

lemma shift_words_differ:
  assumes "password_shift p1 \<noteq> password_shift p2"
  shows "(word_of_int (password_shift p1) :: byte) \<noteq> word_of_int (password_shift p2)"
proof
  assume "(word_of_int (password_shift p1) :: byte) = word_of_int (password_shift p2)"
  then have "uint (word_of_int (password_shift p1) :: byte)
      = uint (word_of_int (password_shift p2) :: byte)" by simp
  then have "password_shift p1 = password_shift p2"
    by (simp only: uint_byte [OF password_shift_range])
  with assms show False by contradiction
qed

lemma scan_bytes_found:
  "scan_bytes bs acc = (q, True) \<Longrightarrow>
   \<exists>k. 0 < k \<and> k \<le> length bs \<and> q @ delimiter_bytes = acc @ take k bs"
proof (induction bs arbitrary: acc)
  case Nil
  then show ?case by simp
next
  case (Cons b bs)
  show ?case
  proof (cases "suffix delimiter_bytes (acc @ [b])")
    case True
    with Cons.prems have "q = take (length (acc @ [b]) - length delimiter_bytes) (acc @ [b])"
      by (simp add: Let_def del: suffix_snoc)
    moreover from True
    have "drop (length (acc @ [b]) - length delimiter_bytes) (acc @ [b]) = delimiter_bytes"
      by (simp only: suffix_iff_drop)
    ultimately have "q @ delimiter_bytes = acc @ [b]" by (metis append_take_drop_id)
    then have "0 < (1::nat) \<and> 1 \<le> length (b # bs) \<and> q @ delimiter_bytes = acc @ take 1 (b # bs)"
      by simp
    then show ?thesis by blast
  next
    case False
    with Cons.prems have "scan_bytes bs (acc @ [b]) = (q, True)"
      by (simp add: Let_def del: suffix_snoc)
    from Cons.IH [OF this] obtain k where
      "0 < k" "k \<le> length bs" "q @ delimiter_bytes = (acc @ [b]) @ take k bs" by blast
    then have "0 < Suc k \<and> Suc k \<le> length (b # bs)
        \<and> q @ delimiter_bytes = acc @ take (Suc k) (b # bs)" by simp
    then show ?thesis by blast
  qed
qed

subsection \<open>Encoding what the UTF-8 decoder accepted\<close>

lemma cons_char_Inr_iff: "cons_char c r = Inr cs \<longleftrightarrow> (\<exists>cs'. r = Inr cs' \<and> cs = c # cs')"
  by (auto simp: cons_char_def split: sum.splits)

lemma dec1:
  "b0 < 0x80 \<Longrightarrow> utf8_decode_ints (b0 # bs) = Inr cs \<Longrightarrow>
   \<exists>cs'. cs = b0 # cs' \<and> utf8_decode_ints bs = Inr cs'"
  by (auto simp: cons_char_Inr_iff)

lemma dec2:
  "\<not> b0 < 0x80 \<Longrightarrow> 0xC2 \<le> b0 \<and> b0 \<le> 0xDF \<Longrightarrow> utf8_decode_ints (b0 # bs) = Inr cs \<Longrightarrow>
   \<exists>b1 rest cs'. bs = b1 # rest \<and> is_cont b1
      \<and> cs = ((b0 - 0xC0) * 64 + (b1 - 0x80)) # cs' \<and> utf8_decode_ints rest = Inr cs'"
  by (cases bs) (auto simp: cons_char_Inr_iff split: if_splits)

lemma dec3:
  "\<not> b0 < 0x80 \<Longrightarrow> \<not> (0xC2 \<le> b0 \<and> b0 \<le> 0xDF) \<Longrightarrow> 0xE0 \<le> b0 \<and> b0 \<le> 0xEF \<Longrightarrow>
   utf8_decode_ints (b0 # bs) = Inr cs \<Longrightarrow>
   \<exists>b1 b2 rest cs' c. bs = b1 # b2 # rest \<and> is_cont b1 \<and> is_cont b2
      \<and> c = (b0 - 0xE0) * 4096 + (b1 - 0x80) * 64 + (b2 - 0x80)
      \<and> 0x800 \<le> c \<and> \<not> (0xD800 \<le> c \<and> c \<le> 0xDFFF)
      \<and> cs = c # cs' \<and> utf8_decode_ints rest = Inr cs'"
proof -
  assume a: "\<not> b0 < 0x80" "\<not> (0xC2 \<le> b0 \<and> b0 \<le> 0xDF)" "0xE0 \<le> b0 \<and> b0 \<le> 0xEF"
    "utf8_decode_ints (b0 # bs) = Inr cs"
  show ?thesis
  proof (cases bs)
    case Nil
    with a show ?thesis by simp
  next
    case (Cons b1 bs')
    show ?thesis
    proof (cases bs')
      case Nil
      with a Cons show ?thesis by simp
    next
      case (Cons b2 rest)
      with a \<open>bs = b1 # bs'\<close> show ?thesis
        by (auto simp add: Let_def cons_char_Inr_iff split: if_splits)
    qed
  qed
qed

lemma dec4:
  "\<not> b0 < 0x80 \<Longrightarrow> \<not> (0xC2 \<le> b0 \<and> b0 \<le> 0xDF) \<Longrightarrow> \<not> (0xE0 \<le> b0 \<and> b0 \<le> 0xEF) \<Longrightarrow>
   utf8_decode_ints (b0 # bs) = Inr cs \<Longrightarrow>
   \<exists>b1 b2 b3 rest cs' c. 0xF0 \<le> b0 \<and> b0 \<le> 0xF4 \<and> bs = b1 # b2 # b3 # rest
      \<and> is_cont b1 \<and> is_cont b2 \<and> is_cont b3
      \<and> c = (b0 - 0xF0) * 262144 + (b1 - 0x80) * 4096 + (b2 - 0x80) * 64 + (b3 - 0x80)
      \<and> 0x10000 \<le> c \<and> c \<le> 0x10FFFF
      \<and> cs = c # cs' \<and> utf8_decode_ints rest = Inr cs'"
proof -
  assume a: "\<not> b0 < 0x80" "\<not> (0xC2 \<le> b0 \<and> b0 \<le> 0xDF)" "\<not> (0xE0 \<le> b0 \<and> b0 \<le> 0xEF)"
    "utf8_decode_ints (b0 # bs) = Inr cs"
  then have r: "0xF0 \<le> b0 \<and> b0 \<le> 0xF4" by (simp split: if_splits)
  show ?thesis
  proof (cases bs)
    case Nil
    with a r show ?thesis by simp
  next
    case c1: (Cons b1 bs1)
    show ?thesis
    proof (cases bs1)
      case Nil
      with a r c1 show ?thesis by simp
    next
      case c2: (Cons b2 bs2)
      show ?thesis
      proof (cases bs2)
        case Nil
        with a r c1 c2 show ?thesis by simp
      next
        case (Cons b3 rest)
        with a r c1 c2 show ?thesis
          by (auto simp add: Let_def cons_char_Inr_iff split: if_splits)
      qed
    qed
  qed
qed

lemma divmod_split:
  fixes x y :: int
  assumes "0 \<le> y" "y < n"
  shows "(x * n + y) div n = x" "(x * n + y) mod n = y"
  using assms by simp_all

lemma encode_decoded2:
  assumes "0xC2 \<le> u0" "u0 \<le> 0xDF" "is_cont u1"
  shows "utf8_encode_char ((u0 - 0xC0) * 64 + (u1 - 0x80)) = Inr [word_of_int u0, word_of_int u1]"
proof -
  define x where "x = u0 - 0xC0"
  define y where "y = u1 - 0x80"
  from assms have x: "2 \<le> x" "x \<le> 31" and y: "0 \<le> y" "y < 64"
    by (simp_all add: x_def y_def is_cont_def)
  have d: "(x * 64 + y) div 64 = x" and m: "(x * 64 + y) mod 64 = y"
    using divmod_split [OF y, of x] by simp_all
  from x y have r: "\<not> x * 64 + y < 0x80" "x * 64 + y < 0x800" by simp_all
  have "utf8_encode_char (x * 64 + y) = Inr [word_of_int (0xC0 + x), word_of_int (0x80 + y)]"
    unfolding utf8_encode_char_def using r by (simp only: if_True if_False d m)
  then show ?thesis by (simp add: x_def y_def)
qed

lemma encode_decoded3:
  assumes "0xE0 \<le> u0" "u0 \<le> 0xEF" "is_cont u1" "is_cont u2"
    and "0x800 \<le> (u0 - 0xE0) * 4096 + (u1 - 0x80) * 64 + (u2 - 0x80)"
    and "\<not> (0xD800 \<le> (u0 - 0xE0) * 4096 + (u1 - 0x80) * 64 + (u2 - 0x80)
           \<and> (u0 - 0xE0) * 4096 + (u1 - 0x80) * 64 + (u2 - 0x80) \<le> 0xDFFF)"
  shows "utf8_encode_char ((u0 - 0xE0) * 4096 + (u1 - 0x80) * 64 + (u2 - 0x80))
           = Inr [word_of_int u0, word_of_int u1, word_of_int u2]"
proof -
  define x where "x = u0 - 0xE0"
  define y where "y = u1 - 0x80"
  define z where "z = u2 - 0x80"
  define c where "c = x * 4096 + y * 64 + z"
  from assms have x: "0 \<le> x" "x \<le> 15" and y: "0 \<le> y" "y < 64" and z: "0 \<le> z" "z < 64"
    by (simp_all add: x_def y_def z_def is_cont_def)
  have c64: "c = (x * 64 + y) * 64 + z" by (simp add: c_def algebra_simps)
  have d1: "c div 64 = x * 64 + y" and m1: "c mod 64 = z"
    unfolding c64 using divmod_split [OF z, of "x * 64 + y"] by simp_all
  have m2: "c div 64 mod 64 = y" and d2: "c div 4096 = x"
  proof -
    show "c div 64 mod 64 = y" unfolding d1 using divmod_split [OF y, of x] by simp
    have "c div 4096 = c div 64 div 64" by simp
    then show "c div 4096 = x" unfolding d1 using divmod_split [OF y, of x] by simp
  qed
  from assms(5,6) have lo: "0x800 \<le> c" and ns: "\<not> (0xD800 \<le> c \<and> c \<le> 0xDFFF)"
    by (simp_all add: c_def x_def y_def z_def)
  from x y z have hi: "c < 0x10000" by (simp add: c_def)
  from lo have r: "\<not> c < 0x80" "\<not> c < 0x800" by simp_all
  have "utf8_encode_char c =
      Inr [word_of_int (0xE0 + x), word_of_int (0x80 + y), word_of_int (0x80 + z)]"
    unfolding utf8_encode_char_def using r ns hi by (simp only: if_True if_False d2 m2 m1)
  then show ?thesis by (simp add: c_def x_def y_def z_def)
qed

lemma encode_decoded4:
  assumes "0xF0 \<le> u0" "u0 \<le> 0xF4" "is_cont u1" "is_cont u2" "is_cont u3"
    and "0x10000 \<le> (u0 - 0xF0) * 262144 + (u1 - 0x80) * 4096 + (u2 - 0x80) * 64 + (u3 - 0x80)"
  shows "utf8_encode_char
           ((u0 - 0xF0) * 262144 + (u1 - 0x80) * 4096 + (u2 - 0x80) * 64 + (u3 - 0x80))
           = Inr [word_of_int u0, word_of_int u1, word_of_int u2, word_of_int u3]"
proof -
  define w where "w = u0 - 0xF0"
  define x where "x = u1 - 0x80"
  define y where "y = u2 - 0x80"
  define z where "z = u3 - 0x80"
  define c where "c = w * 262144 + x * 4096 + y * 64 + z"
  from assms have w: "0 \<le> w" "w \<le> 4" and x: "0 \<le> x" "x < 64" and y: "0 \<le> y" "y < 64"
    and z: "0 \<le> z" "z < 64"
    by (simp_all add: w_def x_def y_def z_def is_cont_def)
  have c64: "c = ((w * 64 + x) * 64 + y) * 64 + z" by (simp add: c_def algebra_simps)
  have d1: "c div 64 = (w * 64 + x) * 64 + y" and m1: "c mod 64 = z"
    unfolding c64 using divmod_split [OF z, of "(w * 64 + x) * 64 + y"] by simp_all
  have d2: "c div 4096 = w * 64 + x" and m2: "c div 64 mod 64 = y"
  proof -
    show "c div 64 mod 64 = y" unfolding d1 using divmod_split [OF y, of "w * 64 + x"] by simp
    have "c div 4096 = c div 64 div 64" by simp
    then show "c div 4096 = w * 64 + x"
      unfolding d1 using divmod_split [OF y, of "w * 64 + x"] by simp
  qed
  have d3: "c div 262144 = w" and m3: "c div 4096 mod 64 = x"
  proof -
    show "c div 4096 mod 64 = x" unfolding d2 using divmod_split [OF x, of w] by simp
    have "c div 262144 = c div 4096 div 64" by simp
    then show "c div 262144 = w" unfolding d2 using divmod_split [OF x, of w] by simp
  qed
  from assms(6) have lo: "0x10000 \<le> c" by (simp add: c_def w_def x_def y_def z_def)
  then have r: "\<not> c < 0x80" "\<not> c < 0x800" "\<not> (0xD800 \<le> c \<and> c \<le> 0xDFFF)" "\<not> c < 0x10000"
    by simp_all
  have "utf8_encode_char c =
      Inr [word_of_int (0xF0 + w), word_of_int (0x80 + x), word_of_int (0x80 + y),
           word_of_int (0x80 + z)]"
    unfolding utf8_encode_char_def using r by (simp only: if_True if_False d3 m3 m2 m1)
  then show ?thesis by (simp add: c_def w_def x_def y_def z_def)
qed

lemma encode_decoded_ints:
  "utf8_decode_ints (map uint bs) = Inr cs \<Longrightarrow> utf8_encode cs = Inr bs"
proof (induction bs arbitrary: cs rule: length_induct)
  case (1 bs)
  show ?case
  proof (cases bs)
    case Nil
    with 1(2) show ?thesis by simp
  next
    case (Cons b0 bs')
    let ?u0 = "uint b0"
    from 1(2) Cons have dec: "utf8_decode_ints (?u0 # map uint bs') = Inr cs" by simp
    consider (a) "?u0 < 0x80" | (b) "\<not> ?u0 < 0x80" "0xC2 \<le> ?u0 \<and> ?u0 \<le> 0xDF"
      | (c) "\<not> ?u0 < 0x80" "\<not> (0xC2 \<le> ?u0 \<and> ?u0 \<le> 0xDF)" "0xE0 \<le> ?u0 \<and> ?u0 \<le> 0xEF"
      | (d) "\<not> ?u0 < 0x80" "\<not> (0xC2 \<le> ?u0 \<and> ?u0 \<le> 0xDF)" "\<not> (0xE0 \<le> ?u0 \<and> ?u0 \<le> 0xEF)"
      by blast
    then show ?thesis
    proof cases
      case a
      from dec1 [OF a dec] obtain cs' where
        cs: "cs = ?u0 # cs'" and r: "utf8_decode_ints (map uint bs') = Inr cs'" by blast
      from 1(1) Cons r have "utf8_encode cs' = Inr bs'" by simp
      moreover from a have "utf8_encode_char ?u0 = Inr [b0]"
        by (simp add: utf8_encode_char_def)
      ultimately show ?thesis using cs Cons by simp
    next
      case b
      from dec2 [OF b dec] obtain u1 rest cs' where
        m: "map uint bs' = u1 # rest" and c1: "is_cont u1"
        and cs: "cs = ((?u0 - 0xC0) * 64 + (u1 - 0x80)) # cs'"
        and r: "utf8_decode_ints rest = Inr cs'" by auto
      from m obtain b1 bs2 where bs': "bs' = b1 # bs2" and u1: "u1 = uint b1"
        and rest: "rest = map uint bs2" by (cases bs') auto
      from 1(1) Cons bs' r rest have "utf8_encode cs' = Inr bs2" by simp
      moreover from encode_decoded2 [of ?u0 u1] b c1
      have "utf8_encode_char ((?u0 - 0xC0) * 64 + (u1 - 0x80)) = Inr [b0, b1]"
        by (simp add: u1)
      ultimately show ?thesis unfolding cs Cons bs' by simp
    next
      case c
      from dec3 [OF c dec] obtain u1 u2 rest cs' v where
        m: "map uint bs' = u1 # u2 # rest" and ct: "is_cont u1" "is_cont u2"
        and v: "v = (?u0 - 0xE0) * 4096 + (u1 - 0x80) * 64 + (u2 - 0x80)"
        and rng: "0x800 \<le> v" "\<not> (0xD800 \<le> v \<and> v \<le> 0xDFFF)"
        and cs: "cs = v # cs'"
        and r: "utf8_decode_ints rest = Inr cs'" by auto
      from m obtain b1 b2 bs3 where bs': "bs' = b1 # b2 # bs3" and u: "u1 = uint b1" "u2 = uint b2"
        and rest: "rest = map uint bs3" by (cases bs'; cases "tl bs'") auto
      from 1(1) Cons bs' r rest have "utf8_encode cs' = Inr bs3" by simp
      moreover from encode_decoded3 [of ?u0 u1 u2] c ct rng
      have "utf8_encode_char v = Inr [b0, b1, b2]"
        by (simp add: u v)
      ultimately show ?thesis unfolding cs Cons bs' by simp
    next
      case d
      from dec4 [OF d dec] obtain u1 u2 u3 rest cs' v where
        r0: "0xF0 \<le> ?u0 \<and> ?u0 \<le> 0xF4"
        and m: "map uint bs' = u1 # u2 # u3 # rest" and ct: "is_cont u1" "is_cont u2" "is_cont u3"
        and v: "v = (?u0 - 0xF0) * 262144 + (u1 - 0x80) * 4096 + (u2 - 0x80) * 64 + (u3 - 0x80)"
        and rng: "0x10000 \<le> v"
        and cs: "cs = v # cs'"
        and r: "utf8_decode_ints rest = Inr cs'" by auto
      from m obtain b1 b2 b3 bs4 where bs': "bs' = b1 # b2 # b3 # bs4"
        and u: "u1 = uint b1" "u2 = uint b2" "u3 = uint b3"
        and rest: "rest = map uint bs4" by (cases bs'; cases "tl bs'"; cases "tl (tl bs')") auto
      from 1(1) Cons bs' r rest have "utf8_encode cs' = Inr bs4" by simp
      moreover from encode_decoded4 [of ?u0 u1 u2 u3] r0 ct rng
      have "utf8_encode_char v = Inr [b0, b1, b2, b3]"
        by (simp add: u v)
      ultimately show ?thesis unfolding cs Cons bs' by simp
    qed
  qed
qed

lemma encode_decoded: "utf8_decode bs = Inr cs \<Longrightarrow> utf8_encode cs = Inr bs"
  unfolding utf8_decode_def by (rule encode_decoded_ints)

subsection \<open>A wrong shift never gives the message back\<close>

lemma is_latin_Cons: "is_latin (c # cs) \<longleftrightarrow> 0 \<le> c \<and> c < 256 \<and> is_latin cs"
  by (simp add: is_latin_def)

lemma first_byte:
  assumes "0 \<le> c" "c < 256" "utf8_encode_char c = Inr (b # pre)"
  shows "(uint b < 0x80 \<and> c = uint b \<and> pre = [])
       \<or> ((uint b = 0xC2 \<or> uint b = 0xC3)
           \<and> (\<exists>k. pre = [k] \<and> 0x80 \<le> uint k \<and> uint k \<le> 0xBF))"
proof (cases "c < 0x80")
  case True
  with assms have "b = word_of_int c" "pre = []" by (simp_all add: utf8_encode_char_def)
  with True assms(1) show ?thesis by (simp add: uint_byte)
next
  case False
  with assms have b: "b = word_of_int (0xC0 + c div 64)" and p: "pre = [word_of_int (0x80 + c mod 64)]"
    by (simp_all add: utf8_encode_char_def)
  from False assms(2) have "c div 64 = 2 \<or> c div 64 = 3" by presburger
  then have "uint b = 0xC2 \<or> uint b = 0xC3"
    unfolding b by (auto simp: uint_byte)
  moreover have "uint (word_of_int (0x80 + c mod 64) :: byte) = 0x80 + c mod 64"
    by (rule uint_cont)
  then have "0x80 \<le> uint (word_of_int (0x80 + c mod 64) :: byte)
      \<and> uint (word_of_int (0x80 + c mod 64) :: byte) \<le> 0xBF" by simp
  ultimately show ?thesis using p by blast
qed

lemma utf8_encode_Cons_Inr:
  assumes "utf8_encode (c # cs) = Inr bs"
  obtains pre rest where "utf8_encode_char c = Inr pre" "utf8_encode cs = Inr rest" "bs = pre @ rest"
  using assms by (auto split: sum.splits)

lemma encode_char_nonempty: "utf8_encode_char c = Inr pre \<Longrightarrow> pre \<noteq> []"
  by (auto simp: utf8_encode_char_def split: if_splits)

lemma prefix_chars:
  "is_latin cs \<Longrightarrow> utf8_encode cs = Inr (A @ Y) \<Longrightarrow> list_all (\<lambda>b. uint b < 0xC2) A \<Longrightarrow>
   \<exists>M2. cs = map uint A @ M2"
proof (induction A arbitrary: cs)
  case Nil
  then show ?case by simp
next
  case (Cons a A)
  from Cons.prems(2) obtain c cs' where cs: "cs = c # cs'" by (cases cs) auto
  from Cons.prems(2) [unfolded cs] obtain pre rest where
    e: "utf8_encode_char c = Inr pre" "utf8_encode cs' = Inr rest" and s: "(a # A) @ Y = pre @ rest"
    by (rule utf8_encode_Cons_Inr)
  from encode_char_nonempty [OF e(1)] s obtain pre' where pre: "pre = a # pre'"
    by (cases pre) auto
  from Cons.prems(1) cs have c: "0 \<le> c" "c < 256" and l: "is_latin cs'"
    by (simp_all add: is_latin_Cons)
  from Cons.prems(3) have a: "uint a < 0xC2" and A: "list_all (\<lambda>b. uint b < 0xC2) A" by simp_all
  from first_byte [OF c e(1) [unfolded pre]] a have "c = uint a" "pre' = []" by auto
  with s pre have "rest = A @ Y" by simp
  from Cons.IH [OF l e(2) [unfolded this] A] obtain M2 where "cs' = map uint A @ M2" ..
  with cs \<open>c = uint a\<close> show ?case by simp
qed

lemma window_form:
  "map (\<lambda>d. d + x) delimiter_bytes = [60 + x, 60 + x, 69 + x, 78 + x, 68 + x, 62 + x, 62 + x]"
  by (simp add: delimiter_bytes_eq)

lemma window_small:
  fixes w :: byte
  assumes "uint w < 0x80"
  shows "uint (w + 9) < 0xC2" "uint (w + 18) < 0xC2" "uint (w + 8) < 0xC2" "uint (w + 2) < 0xC2"
proof -
  have "uint (w + k) \<le> uint w + uint k" for k by (rule uint_add_le)
  from this [of 9] this [of 18] this [of 8] this [of 2] assms
  show "uint (w + 9) < 0xC2" "uint (w + 18) < 0xC2" "uint (w + 8) < 0xC2" "uint (w + 2) < 0xC2"
    by simp_all
qed

lemma window_aligned:
  assumes "is_latin cs" "utf8_encode cs = Inr (map (\<lambda>d. d + x) delimiter_bytes @ Y)"
  shows "\<exists>M2. cs = map uint (map (\<lambda>d. d + x) delimiter_bytes) @ M2"
proof -
  define w where "w = 60 + x"
  have W: "map (\<lambda>d. d + x) delimiter_bytes = [w, w, w + 9, w + 18, w + 8, w + 2, w + 2]"
    by (simp add: window_form w_def)
  from assms(2) obtain c cs' where cs: "cs = c # cs'" by (cases cs) (auto simp: W)
  from assms(2) [unfolded cs W] obtain pre rest where
    e: "utf8_encode_char c = Inr pre" "utf8_encode cs' = Inr rest"
    and s: "[w, w, w + 9, w + 18, w + 8, w + 2, w + 2] @ Y = pre @ rest"
    by (rule utf8_encode_Cons_Inr)
  from encode_char_nonempty [OF e(1)] s obtain pre' where pre: "pre = w # pre'"
    by (cases pre) auto
  from assms(1) cs have c: "0 \<le> c" "c < 256" by (simp_all add: is_latin_Cons)
  from first_byte [OF c e(1) [unfolded pre]] have small: "uint w < 0x80"
  proof
    assume "uint w < 0x80 \<and> c = uint w \<and> pre' = []"
    then show ?thesis by simp
  next
    assume "(uint w = 0xC2 \<or> uint w = 0xC3)
           \<and> (\<exists>k. pre' = [k] \<and> 0x80 \<le> uint k \<and> uint k \<le> 0xBF)"
    then obtain k where lead: "uint w = 0xC2 \<or> uint w = 0xC3"
      and k: "pre' = [k]" "0x80 \<le> uint k" "uint k \<le> 0xBF" by blast
    from s pre k(1) have "k = w" by simp
    with lead k(2,3) show ?thesis by auto
  qed
  then have "list_all (\<lambda>b. uint b < 0xC2) [w, w, w + 9, w + 18, w + 8, w + 2, w + 2]"
    using window_small [OF small] by simp
  from prefix_chars [OF assms(1) assms(2) [unfolded W] this] show ?thesis
    by (simp only: W)
qed

lemma window_chars:
  "is_latin cs \<Longrightarrow> utf8_encode cs = Inr (X @ map (\<lambda>d. d + x) delimiter_bytes @ Y) \<Longrightarrow>
   \<exists>M1 M2. cs = M1 @ map uint (map (\<lambda>d. d + x) delimiter_bytes) @ M2 \<and> length M1 \<le> length X"
proof (induction cs arbitrary: X)
  case Nil
  then show ?case by (simp add: window_form)
next
  case (Cons c cs)
  let ?W = "map (\<lambda>d. d + x) delimiter_bytes"
  show ?case
  proof (cases X)
    case Nil
    from window_aligned [OF Cons.prems(1)] Cons.prems(2) [unfolded Nil] obtain M2 where
      "c # cs = map uint ?W @ M2" by auto
    then have "c # cs = [] @ map uint ?W @ M2 \<and> length ([] :: pystr) \<le> length X" by simp
    then show ?thesis by blast
  next
    case X: (Cons x0 X')
    from Cons.prems(2) obtain pre rest where
      e: "utf8_encode_char c = Inr pre" "utf8_encode cs = Inr rest"
      and s: "X @ ?W @ Y = pre @ rest"
      by (rule utf8_encode_Cons_Inr)
    from encode_char_nonempty [OF e(1)] s X obtain pre' where pre: "pre = x0 # pre'"
      by (cases pre) auto
    from Cons.prems(1) have c: "0 \<le> c" "c < 256" and l: "is_latin cs"
      by (simp_all add: is_latin_Cons)
    from first_byte [OF c e(1) [unfolded pre]] show ?thesis
    proof
      assume "uint x0 < 0x80 \<and> c = uint x0 \<and> pre' = []"
      with s pre X have "rest = X' @ ?W @ Y" by simp
      from Cons.IH [OF l e(2) [unfolded this]] obtain M1 M2 where
        "cs = M1 @ map uint ?W @ M2" "length M1 \<le> length X'" by blast
      then have "c # cs = (c # M1) @ map uint ?W @ M2 \<and> length (c # M1) \<le> length X"
        by (simp add: X)
      then show ?thesis by blast
    next
      assume "(uint x0 = 0xC2 \<or> uint x0 = 0xC3)
           \<and> (\<exists>k. pre' = [k] \<and> 0x80 \<le> uint k \<and> uint k \<le> 0xBF)"
      then obtain k where k: "pre' = [k]" "0x80 \<le> uint k" "uint k \<le> 0xBF" by blast
      with s pre X have kr: "k # rest = X' @ ?W @ Y" by simp
      show ?thesis
      proof (cases X')
        case Nil
        with kr have kw: "k # rest = ?W @ Y" by simp
        then have k0: "k = 60 + x" and r: "rest = [60 + x, 69 + x, 78 + x, 68 + x, 62 + x, 62 + x] @ Y"
          by (simp_all add: window_form)
        from r e(2) obtain c1 cs1 where cs1: "cs = c1 # cs1" by (cases cs) auto
        from e(2) [unfolded cs1 r] obtain pre1 rest1 where
          e1: "utf8_encode_char c1 = Inr pre1"
          and s1: "[60 + x, 69 + x, 78 + x, 68 + x, 62 + x, 62 + x] @ Y = pre1 @ rest1"
          by (rule utf8_encode_Cons_Inr)
        from encode_char_nonempty [OF e1] s1 obtain pre1' where p1: "pre1 = (60 + x) # pre1'"
          by (cases pre1) auto
        from l cs1 have c1: "0 \<le> c1" "c1 < 256" by (simp_all add: is_latin_Cons)
        from first_byte [OF c1 e1 [unfolded p1]] k(2,3) k0 show ?thesis by auto
      next
        case (Cons x1 X'')
        with kr have "rest = X'' @ ?W @ Y" by simp
        from Cons.IH [OF l e(2) [unfolded this]] obtain M1 M2 where
          "cs = M1 @ map uint ?W @ M2" "length M1 \<le> length X''" by blast
        then have "c # cs = (c # M1) @ map uint ?W @ M2 \<and> length (c # M1) \<le> length X"
          by (simp add: X Cons)
        then show ?thesis by blast
      qed
    qed
  qed
qed

lemma length_utf8_ge: "utf8_encode cs = Inr bs \<Longrightarrow> length cs \<le> length bs"
proof (induction cs arbitrary: bs)
  case Nil
  then show ?case by simp
next
  case (Cons c cs)
  from Cons.prems obtain pre rest where
    e: "utf8_encode_char c = Inr pre" "utf8_encode cs = Inr rest" "bs = pre @ rest"
    by (rule utf8_encode_Cons_Inr)
  from encode_char_nonempty [OF e(1)] have "1 \<le> length pre" by (cases pre) simp_all
  with Cons.IH [OF e(2)] e(3) show ?case by simp
qed

lemma no_window:
  assumes "is_latin msg" "utf8_encode msg = Inr B"
    and self: "\<forall>i<length msg. msg ! i = uint (B ! i + dw)" and dw: "dw \<noteq> 0"
  shows "B \<noteq> X @ map (\<lambda>d. d + x) delimiter_bytes @ Y"
proof (induction "length X" arbitrary: X x Y rule: less_induct)
  case less
  let ?W = "map (\<lambda>d. d + x) delimiter_bytes"
  show ?case
  proof
    assume B: "B = X @ ?W @ Y"
    from window_chars [OF assms(1) assms(2) [unfolded B]] obtain M1 M2 where
      m: "msg = M1 @ map uint ?W @ M2" and le: "length M1 \<le> length X" by blast
    define a where "a = length M1"
    have len: "a + 7 \<le> length msg"
      by (simp add: m a_def length_delimiter_bytes)
    have lenB: "length msg \<le> length B" by (rule length_utf8_ge [OF assms(2)])
    have nth_msg: "msg ! (a + t) = uint (?W ! t)" if "t < 7" for t
      using that unfolding m a_def
      by (simp add: nth_append length_delimiter_bytes del: map_map)
    have bt: "B ! (a + t) + dw = ?W ! t" if "t < 7" for t
    proof -
      from that len have "a + t < length msg" by simp
      with self have "msg ! (a + t) = uint (B ! (a + t) + dw)" by blast
      with nth_msg [OF that] have "uint (B ! (a + t) + dw) = uint (?W ! t)" by simp
      then show ?thesis by (rule word_uint_eqI)
    qed
    have tk: "take 7 (drop a B) = map (\<lambda>d. d + (x - dw)) delimiter_bytes"
    proof (rule nth_equalityI)
      show "length (take 7 (drop a B)) = length (map (\<lambda>d. d + (x - dw)) delimiter_bytes)"
        using len lenB by (simp add: length_delimiter_bytes)
    next
      fix t assume "t < length (take 7 (drop a B))"
      then have t: "t < 7" by simp
      with len lenB have "take 7 (drop a B) ! t = B ! (a + t)" by simp
      also from bt [OF t] have "\<dots> = ?W ! t - dw" by (simp add: algebra_simps)
      also from t have "\<dots> = map (\<lambda>d. d + (x - dw)) delimiter_bytes ! t"
        by (simp add: length_delimiter_bytes)
      finally show "take 7 (drop a B) ! t = map (\<lambda>d. d + (x - dw)) delimiter_bytes ! t" .
    qed
    have B2: "B = take a B @ map (\<lambda>d. d + (x - dw)) delimiter_bytes @ drop (a + 7) B"
    proof -
      have "drop a B = take 7 (drop a B) @ drop 7 (drop a B)"
        by (simp only: append_take_drop_id)
      then have "drop a B = take 7 (drop a B) @ drop (a + 7) B"
        by (simp only: drop_drop add.commute)
      moreover have "B = take a B @ drop a B" by (simp only: append_take_drop_id)
      ultimately have "B = take a B @ take 7 (drop a B) @ drop (a + 7) B" by metis
      then show ?thesis by (simp only: tk)
    qed
    show False
    proof (cases "a < length X")
      case True
      with len lenB have "length (take a B) < length X" by simp
      from less.hyps [OF this, of "x - dw" "drop (a + 7) B"] B2 show False by contradiction
    next
      case False
      with le have a: "a = length X" by (simp add: a_def)
      have "B ! a = ?W ! 0"
        unfolding a B by (simp add: nth_append length_delimiter_bytes del: map_map)
      with bt [of 0] have "?W ! 0 + dw = ?W ! 0" by simp
      then have "dw = 0" by simp
      with dw show False by contradiction
    qed
  qed
qed

lemma wrong_shift_garbles:
  assumes enc: "utf8_encode msg = Inr B" and ne: "msg \<noteq> []"
    and diff: "password_shift p1 \<noteq> password_shift p2"
    and sc: "scan_bytes (apply_shift B p1 @ delimiter_bytes) [] = (q, True)"
  shows "(case utf8_decode (reverse_shift q p2) of
            Inr t \<Rightarrow> t | Inl e \<Rightarrow> latin1_decode (reverse_shift q p2)) \<noteq> msg"
proof
  let ?D = delimiter_bytes
  define w1 :: byte where "w1 = word_of_int (password_shift p1)"
  define w2 :: byte where "w2 = word_of_int (password_shift p2)"
  define dw where "dw = w1 - w2"
  define S where "S = apply_shift B p1"
  define n where "n = length q"
  define r where "r = reverse_shift q p2"
  assume eq: "(case utf8_decode (reverse_shift q p2) of
            Inr t \<Rightarrow> t | Inl e \<Rightarrow> latin1_decode (reverse_shift q p2)) = msg"
  from shift_words_differ [OF diff] have dw: "dw \<noteq> 0" by (simp add: dw_def w1_def w2_def)
  have S: "S = map (\<lambda>b. b + w1) B" by (simp add: S_def apply_shift_word w1_def)
  have lS: "length S = length B" by (simp add: S)
  from length_utf8_ge [OF enc] ne have Bne: "B \<noteq> []" by auto
  from scan_bytes_found [OF sc] obtain k where
    k: "0 < k" "k \<le> length (S @ ?D)" "q @ ?D = take k (S @ ?D)" by (auto simp: S_def)
  have "length (q @ ?D) = length (take k (S @ ?D))" by (simp only: k(3))
  also have "\<dots> = k" using k(2) by (simp only: length_take min_absorb2)
  finally have kn: "k = n + 7"
    by (simp add: n_def length_delimiter_bytes)
  with k(2) have nB: "n \<le> length B" by (simp add: lS length_delimiter_bytes)
  have q: "q = take n S"
  proof -
    have "q = take n (q @ ?D)" by (simp add: n_def)
    also have "\<dots> = take n (take k (S @ ?D))" by (simp only: k(3))
    also have "\<dots> = take n (S @ ?D)" by (simp add: kn min_def)
    also have "\<dots> = take n S" using nB by (simp add: lS)
    finally show ?thesis .
  qed
  have r: "r = map (\<lambda>b. b + dw) (take n B)"
    by (simp add: r_def reverse_shift_word q S take_map o_def dw_def w1_def w2_def)
  have lr: "length r = n" using nB by (simp add: r)
  show False
  proof (cases "utf8_decode r")
    case (Inr t)
    with eq have "utf8_decode r = Inr msg" by (simp add: r_def)
    from encode_decoded [OF this] enc have rB: "r = B" by simp
    from Bne obtain b B' where B: "B = b # B'" by (cases B) auto
    from rB lr B have "0 < n" by auto
    then obtain n' where "n = Suc n'" by (cases n) auto
    with rB [unfolded r] B have "b + dw = b" by simp
    with dw show False by simp
  next
    case (Inl e)
    with eq have msg: "msg = map uint r" by (simp add: r_def latin1_decode_def)
    have latin: "is_latin msg"
      unfolding msg is_latin_def list_all_iff using uint_bounded [where 'a = 8] by auto
    have lm: "length msg = n" by (simp add: msg lr)
    have self: "\<forall>i<length msg. msg ! i = uint (B ! i + dw)"
      using nB by (simp add: msg r lr)
    from ne obtain c0 cs where m0: "msg = c0 # cs" by (cases msg) auto
    from enc [unfolded m0] obtain pre rest where
      e: "utf8_encode_char c0 = Inr pre" "utf8_encode cs = Inr rest" and Bp: "B = pre @ rest"
      by (rule utf8_encode_Cons_Inr)
    from encode_char_nonempty [OF e(1)] obtain b pre' where pre: "pre = b # pre'"
      by (cases pre) auto
    from latin m0 have c0: "0 \<le> c0" "c0 < 256" by (simp_all add: is_latin_Cons)
    from self m0 Bp pre have s0: "c0 = uint (b + dw)" by auto
    have lt: "n < length B"
      using first_byte [OF c0 e(1) [unfolded pre]]
    proof
      assume "uint b < 0x80 \<and> c0 = uint b \<and> pre' = []"
      with s0 have "uint (b + dw) = uint b" by simp
      then have "b + dw = b" by (rule word_uint_eqI)
      with dw show ?thesis by simp
    next
      assume "(uint b = 0xC2 \<or> uint b = 0xC3)
           \<and> (\<exists>k. pre' = [k] \<and> 0x80 \<le> uint k \<and> uint k \<le> 0xBF)"
      then obtain k' where "pre' = [k']" by blast
      with Bp pre length_utf8_ge [OF e(2)] lm m0 show ?thesis by simp
    qed
    show False
    proof (cases "k \<le> length S")
      case True
      with k(3) have "q @ ?D = take k S" by simp
      then have "S = q @ ?D @ drop k S" by (metis append.assoc append_take_drop_id)
      moreover have "B = map (\<lambda>b. b - w1) S" by (simp add: S o_def)
      ultimately have "B = map (\<lambda>b. b - w1) q @ map (\<lambda>d. d + (- w1)) ?D
          @ map (\<lambda>b. b - w1) (drop k S)"
        by (metis (no_types, lifting) map_append map_eq_conv uminus_add_conv_diff add.commute)
      with no_window [OF latin enc self dw] show False by blast
    next
      case False
      define j where "j = k - length S"
      from False kn lt lS have j: "0 < j" "j < 7" by (simp_all add: j_def)
      from False k(3) have "q @ ?D = S @ take j ?D" by (simp add: j_def)
      then have sD: "suffix ?D (S @ take j ?D)" by (metis suffixI)
      have "suffix (take j ?D) (S @ take j ?D)" by (rule suffixI) (rule refl)
      from suffix_length_suffix [OF this sD] have "suffix (take j ?D) ?D" by simp
      with delimiter_no_border [OF j] show False by contradiction
    qed
  qed
qed

subsection \<open>The round trip\<close>

text \<open>What a successful encode wrote decodes to the message under every password with the
  same shift, provided that the first delimiter of the embedded bytes is the appended one.\<close>

lemma decode_roundtrip:
  assumes e: "encode_message fs image_path msg output_path p1 = (res, fs')"
    and ok: "success res"
    and str: "is_str msg" and enc: "utf8_encode msg = Inr payload"
    and nd: "\<not> sublist delimiter_bytes (apply_shift payload p1)"
    and sh: "password_shift p1 = password_shift p2"
  shows "decode_message fs' output_path p2 =
         \<lparr>dec_success = True, dec_message = MessageExtracted, secret = Some msg\<rparr>"
proof -
  have "scan_bytes (apply_shift payload p1 @ delimiter_bytes) [] = (apply_shift payload p1, True)"
    using scan_bytes_payload [OF nd, of "[]"] by simp
  moreover have "reverse_shift (apply_shift payload p1) p1 = payload"
    by (simp add: apply_shift_def reverse_shift_def Let_def unshift_shift_byte o_def)
  then have "reverse_shift (apply_shift payload p1) p2 = payload"
    by (simp only: reverse_shift_eq sh)
  moreover have "utf8_decode payload = Inr msg"
    by (rule utf8_roundtrip [OF str enc])
  ultimately show ?thesis
    unfolding decode_encoded [OF e ok enc, of p2] by (simp add: Let_def)
qed

subsection \<open>The scenario of the test script\<close>

lemma test_encode_success:
  "success (fst (encode_message (image_fs ''_test_carrier.png'' (solid_rgb 100 100 (42, 58, 90)))
       ''_test_carrier.png''
       (map of_char ''this is a secret message!! nobody can see this '' @ [0x1F510])
       ''_test_stego.png'' (map of_char ''hunter2'')))"
proof -
  have c: "8 * (length [116, 104, 105, 115, 32, 105, 115, 32, 97, 32, 115, 101, 99, 114, 101, 116, 32, 109,
          101, 115, 115, 97, 103, 101, 33, 33, 32, 110, 111, 98, 111, 100, 121, 32, 99, 97,
          110, 32, 115, 101, 101, 32, 116, 104, 105, 115, 32, 240, 159, 148, 144 :: byte]
           + length delimiter_bytes)
        \<le> width (solid_rgb 100 100 (42, 58, 90)) * height (solid_rgb 100 100 (42, 58, 90)) * 3"
    by (simp add: solid_rgb_size length_delimiter_bytes)
  show ?thesis
    by (rule encode_succeeds
          [where fs = "image_fs ''_test_carrier.png'' (solid_rgb 100 100 (42, 58, 90))",
           OF image_fs_files wf_solid_rgb test_message_bytes c image_fs_save])
qed

lemma test_message_no_delimiter:
  "\<not> sublist delimiter_bytes
        (apply_shift [116, 104, 105, 115, 32, 105, 115, 32, 97, 32, 115, 101, 99, 114, 101, 116, 32, 109,
          101, 115, 115, 97, 103, 101, 33, 33, 32, 110, 111, 98, 111, 100, 121, 32, 99, 97,
          110, 32, 115, 101, 101, 32, 116, 104, 105, 115, 32, 240, 159, 148, 144]
          (map of_char ''hunter2''))"
  unfolding test_message_shifted delimiter_bytes_eq
  by (simp add: sublist_Cons_right)

lemma test_message_is_str:
  "is_str (map of_char ''this is a secret message!! nobody can see this '' @ [0x1F510])"
  by (simp add: is_str_def)

lemma small_encode_success:
  assumes "utf8_encode msg = Inr payload" "length payload \<le> 30"
  shows "success (fst (encode_message (image_fs ''carrier.png'' (solid_rgb 10 10 (42, 58, 90)))
       ''carrier.png'' msg ''stego.png'' password))"
proof -
  have c: "8 * (length payload + length delimiter_bytes)
             \<le> width (solid_rgb 10 10 (42, 58, 90)) * height (solid_rgb 10 10 (42, 58, 90)) * 3"
    using assms(2) by (simp add: solid_rgb_size length_delimiter_bytes)
  show ?thesis
    by (rule encode_succeeds
          [where fs = "image_fs ''carrier.png'' (solid_rgb 10 10 (42, 58, 90))",
           OF image_fs_files wf_solid_rgb assms(1) c image_fs_save])
qed

text \<open>The decode of the message \<^verbatim>\<open>a<<END>>b\<close>, encoded without a shift, stops at the
  delimiter inside the message.\<close>

lemma decode_truncated:
  assumes "password_shift p1 = 0" "password_shift p2 = 0"
  shows "decode_message
     (snd (encode_message (image_fs ''carrier.png'' (solid_rgb 10 10 (42, 58, 90)))
             ''carrier.png'' (map of_char ''a<<END>>b'') ''stego.png'' p1))
     ''stego.png'' p2
   = \<lparr>dec_success = True, dec_message = MessageExtracted, secret = Some (map of_char ''a'')\<rparr>"
proof -
  let ?e = "encode_message (image_fs ''carrier.png'' (solid_rgb 10 10 (42, 58, 90)))
             ''carrier.png'' (map of_char ''a<<END>>b'') ''stego.png'' p1"
  have s: "success (fst ?e)" by (rule small_encode_success [OF enc1]) simp
  have a: "apply_shift [97, 60, 60, 69, 78, 68, 62, 62, 98] p1 = [97, 60, 60, 69, 78, 68, 62, 62, 98]"
    by (simp add: apply_shift_eq assms)
  have u: "utf8_decode [97] = Inr [97]"
    by (simp add: utf8_decode_def)
  have r: "reverse_shift (fst ([97 :: byte], True)) p2 = [97]"
    by (simp add: reverse_shift_eq assms)
  show ?thesis
    using decode_encoded [OF prod.collapse [symmetric] s enc1, of p2, unfolded a sb1 r Let_def u]
    by simp
qed

text \<open>An output path in a directory that does not exist: \<^verbatim>\<open>save\<close> raises
  \<^verbatim>\<open>FileNotFoundError\<close>, the handler reports a failure and no file is written.\<close>

lemma encode_missing_directory:
  "encode_message (image_fs_without ''carrier.png'' (solid_rgb 10 10 (42, 58, 90)) ''nodir/stego.png'')
     ''carrier.png'' (map of_char ''hi'') ''nodir/stego.png'' (map of_char ''hunter2'') =
   (\<lparr>success = False, message = ImageFileNotFound, capacity = 0, used = 0\<rparr>,
    image_fs_without ''carrier.png'' (solid_rgb 10 10 (42, 58, 90)) ''nodir/stego.png'')"
proof -
  let ?fs = "image_fs_without ''carrier.png'' (solid_rgb 10 10 (42, 58, 90)) ''nodir/stego.png''"
  have f: "files ?fs ''carrier.png'' = Some (ImageFile (solid_rgb 10 10 (42, 58, 90)))"
    by (simp add: image_fs_without_def)
  have sv: "save_error ?fs ''nodir/stego.png'' = Some FileNotFoundError"
    by (simp add: image_fs_without_def)
  have c: "8 * (length [104, 105 :: byte] + length delimiter_bytes)
             \<le> width (solid_rgb 10 10 (42, 58, 90)) * height (solid_rgb 10 10 (42, 58, 90)) * 3"
    by (simp add: solid_rgb_size length_delimiter_bytes)
  show ?thesis
    using encode_save_fails [where fs = ?fs, OF f wf_solid_rgb enc_hi c sv] by simp
qed

subsection \<open>Claims\<close>

text \<open>
  C1. For every string \<open>msg\<close> and every password (the empty one included): whenever
  encoding \<open>msg\<close> into an image succeeds (the carrier opened, the payload and the delimiter
  fit into its capacity, and the output was written) and the shifted payload bytes do not
  contain the delimiter bytes, decoding the written image with the same password returns
  success with the secret equal to \<open>msg\<close>.
\<close>

theorem C1_roundtrip:
  assumes "encode_message fs image_path msg output_path password = (res, fs')"
    and "success res"
    and "is_str msg" and "utf8_encode msg = Inr payload"
    and "\<not> sublist delimiter_bytes (apply_shift payload password)"
  shows "decode_message fs' output_path password =
         \<lparr>dec_success = True, dec_message = MessageExtracted, secret = Some msg\<rparr>"
  by (rule decode_roundtrip [OF assms refl])

theorem C1_roundtrip_witness:
  "success (fst (encode_message (image_fs ''_test_carrier.png'' (solid_rgb 100 100 (42, 58, 90)))
       ''_test_carrier.png''
       (map of_char ''this is a secret message!! nobody can see this '' @ [0x1F510])
       ''_test_stego.png'' (map of_char ''hunter2'')))
   \<and> decode_message
       (snd (encode_message (image_fs ''_test_carrier.png'' (solid_rgb 100 100 (42, 58, 90)))
          ''_test_carrier.png''
          (map of_char ''this is a secret message!! nobody can see this '' @ [0x1F510])
          ''_test_stego.png'' (map of_char ''hunter2'')))
       ''_test_stego.png'' (map of_char ''hunter2'')
     = \<lparr>dec_success = True, dec_message = MessageExtracted,
        secret = Some (map of_char ''this is a secret message!! nobody can see this '' @ [0x1F510])\<rparr>"
  using test_encode_success
    C1_roundtrip [OF prod.collapse [symmetric] test_encode_success test_message_is_str
      test_message_bytes test_message_no_delimiter]
  by (rule conjI)

theorem C1_counterexample:
  "decode_message
     (snd (encode_message (image_fs ''carrier.png'' (solid_rgb 10 10 (42, 58, 90)))
             ''carrier.png'' (map of_char ''a<<END>>b'') ''stego.png'' []))
     ''stego.png'' []
   = \<lparr>dec_success = True, dec_message = MessageExtracted, secret = Some (map of_char ''a'')\<rparr>
   \<and> is_str (map of_char ''a<<END>>b'')
   \<and> success (fst (encode_message (image_fs ''carrier.png'' (solid_rgb 10 10 (42, 58, 90)))
             ''carrier.png'' (map of_char ''a<<END>>b'') ''stego.png'' []))
   \<and> map of_char ''a'' \<noteq> (map of_char ''a<<END>>b'' :: pystr)"
proof -
  have z: "password_shift [] = 0" by (simp add: password_shift_def)
  have s: "success (fst (encode_message (image_fs ''carrier.png'' (solid_rgb 10 10 (42, 58, 90)))
             ''carrier.png'' (map of_char ''a<<END>>b'') ''stego.png'' []))"
    by (rule small_encode_success [OF enc1]) simp
  show ?thesis
    using decode_truncated [OF z z] s by (simp add: is_str_def)
qed

text \<open>
  C2. For every byte sequence \<open>b\<close> and every password \<open>p\<close>, reversing the shift of the
  shifted bytes with the same password gives \<open>b\<close> back, and the shift keeps the number of
  bytes.
\<close>

theorem C2_shift_roundtrip:
  "reverse_shift (apply_shift b p) p = b \<and> length (apply_shift b p) = length b"
  by (simp add: apply_shift_def reverse_shift_def Let_def unshift_shift_byte o_def)

theorem C2_shift_roundtrip_witness:
  "reverse_shift (apply_shift [116, 240, 159, 148, 144] (map of_char ''hunter2''))
     (map of_char ''hunter2'') = [116, 240, 159, 148, 144]
   \<and> length (apply_shift [116, 240, 159, 148, 144] (map of_char ''hunter2''))
     = length [116, 240, 159, 148, 144 :: byte]"
  by (rule C2_shift_roundtrip)

text \<open>
  C3. For every image of width \<open>w\<close> and height \<open>h\<close> and every message whose payload plus
  delimiter needs more than \<open>w * h * 3\<close> bits, encoding fails with the capacity error, which
  reports the available and the required size, and the file system is unchanged: no output
  file is written.
\<close>

theorem C3_capacity_rejection:
  assumes "files fs image_path = Some (ImageFile img)"
    and "utf8_encode msg = Inr payload"
    and "8 * (length payload + length delimiter_bytes) > width img * height img * 3"
  shows "encode_message fs image_path msg output_path password =
     (\<lparr>success = False,
       message = MessageTooLarge
                   (int (width img * height img * 3 div 8) - int (length DELIMITER))
                   (int (length payload + length delimiter_bytes)),
       capacity = int (width img * height img * 3 div 8),
       used = int (length payload + length delimiter_bytes)\<rparr>,
      fs)"
  using assms(3)
  by (simp add: encode_message_def encode_body_def Image_open_def assms(1,2)
      utf8_encode_DELIMITER delimiter_bytes_eq [symmetric] Let_def
      length_bytes_to_bits length_apply_shift)

theorem C3_capacity_rejection_witness:
  "encode_message (image_fs ''carrier.png'' (solid_rgb 4 4 (42, 58, 90)))
     ''carrier.png'' (map of_char ''hi'') ''stego.png'' (map of_char ''hunter2'') =
     (\<lparr>success = False, message = MessageTooLarge (- 1) 9, capacity = 6, used = 9\<rparr>,
      image_fs ''carrier.png'' (solid_rgb 4 4 (42, 58, 90)))"
proof -
  have c: "8 * (length [104, 105 :: byte] + length delimiter_bytes)
             > width (solid_rgb 4 4 (42, 58, 90)) * height (solid_rgb 4 4 (42, 58, 90)) * 3"
    by (simp add: solid_rgb_size length_delimiter_bytes)
  show ?thesis
    using C3_capacity_rejection
      [where fs = "image_fs ''carrier.png'' (solid_rgb 4 4 (42, 58, 90))"
         and output_path = "''stego.png''" and password = "map of_char ''hunter2''",
       OF image_fs_files enc_hi c]
    by (simp add: solid_rgb_size length_delimiter_bytes length_DELIMITER)
qed

text \<open>
  C4. For every image, the capacity query returns
  \<open>floor (width * height * min channel_count 3 / 8) - len delimiter - 10\<close>, floored at zero
  (the delimiter has 7 characters); so for a fixed channel count the result does not
  decrease when \<open>width * height\<close> grows.
\<close>

theorem C4_capacity:
  "(files fs p = Some (ImageFile img) \<longrightarrow>
      capacity_chars (image_capacity fs p) =
        max (int (width img * height img * min (bands img) 3 div 8) - int (length DELIMITER) - 10) 0
      \<and> length DELIMITER = 7)
   \<and> (files fs p = Some (ImageFile img) \<and> files fs' p' = Some (ImageFile img')
        \<and> bands img = bands img' \<and> width img * height img \<le> width img' * height img' \<longrightarrow>
      capacity_chars (image_capacity fs p) \<le> capacity_chars (image_capacity fs' p'))"
proof (intro conjI impI)
  assume "files fs p = Some (ImageFile img)"
  then show "capacity_chars (image_capacity fs p) =
        max (int (width img * height img * min (bands img) 3 div 8) - int (length DELIMITER) - 10) 0"
    by (simp add: image_capacity_def Image_open_def Let_def)
next
  show "length DELIMITER = 7" by (rule length_DELIMITER)
next
  assume a: "files fs p = Some (ImageFile img) \<and> files fs' p' = Some (ImageFile img')
        \<and> bands img = bands img' \<and> width img * height img \<le> width img' * height img'"
  then have "width img * height img * min (bands img) 3
           \<le> width img' * height img' * min (bands img') 3"
    by (simp add: mult_le_mono1)
  then have "width img * height img * min (bands img) 3 div 8
           \<le> width img' * height img' * min (bands img') 3 div 8"
    by (rule div_le_mono)
  with a show "capacity_chars (image_capacity fs p) \<le> capacity_chars (image_capacity fs' p')"
    by (simp add: image_capacity_def Image_open_def Let_def)
qed

theorem C4_capacity_witness:
  "capacity_chars (image_capacity (image_fs ''a.png'' (solid_rgb 100 100 (42, 58, 90))) ''a.png'')
     = 3733
   \<and> capacity_chars (image_capacity (image_fs ''a.png'' (solid_rgb 100 100 (42, 58, 90))) ''a.png'')
     \<le> capacity_chars (image_capacity (image_fs ''b.png'' (solid_rgb 200 100 (0, 0, 0))) ''b.png'')"
  using C4_capacity
    [where fs = "image_fs ''a.png'' (solid_rgb 100 100 (42, 58, 90))" and p = "''a.png''"
       and img = "solid_rgb 100 100 (42, 58, 90)"
       and fs' = "image_fs ''b.png'' (solid_rgb 200 100 (0, 0, 0))" and p' = "''b.png''"
       and img' = "solid_rgb 200 100 (0, 0, 0)"]
  by (simp add: solid_rgb_def length_DELIMITER)

text \<open>
  C9. On every successful encode, the flattened channel sequence of the written image has
  the length of the input's; the upper seven bits of every channel are those of the
  normalized input image; the last bit of channel \<open>i\<close> is \<open>bits ! i\<close> for \<open>i < length bits\<close>;
  and every channel at index \<open>length bits\<close> or beyond is unchanged.
\<close>

theorem C9_frame:
  assumes "files fs image_path = Some (ImageFile img)"
    and "encode_message fs image_path msg output_path password = (res, fs')"
    and "success res"
  shows "\<exists>out payload.
       files fs' output_path = Some (ImageFile out) \<and> utf8_encode msg = Inr payload
     \<and> width out = width img \<and> height out = height img
     \<and> length (flatten (rgb_data out)) = length (flatten (rgb_data img))
     \<and> (\<forall>i < length (flatten (rgb_data img)).
          drop_bit 1 (flatten (rgb_data out) ! i) = drop_bit 1 (flatten (rgb_data img) ! i)
        \<and> (i < length (bytes_to_bits (apply_shift payload password @ delimiter_bytes)) \<longrightarrow>
             flatten (rgb_data out) ! i AND 1
               = bytes_to_bits (apply_shift payload password @ delimiter_bytes) ! i)
        \<and> (length (bytes_to_bits (apply_shift payload password @ delimiter_bytes)) \<le> i \<longrightarrow>
             flatten (rgb_data out) ! i = flatten (rgb_data img) ! i))"
proof -
  from assms(2,3) obtain img' payload flat' new_pixels where
    i: "files fs image_path = Some (ImageFile img')"
    and e: "utf8_encode msg = Inr payload"
    and emb: "embed_bits 0 (bytes_to_bits (apply_shift payload password @ delimiter_bytes))
       (flatten (rgb_data img')) = Inr flat'"
    and rg: "regroup flat' = Inr new_pixels"
    and fs': "fs' = fs\<lparr>files := (files fs)(output_path \<mapsto>
                ImageFile (new_rgb_image (width img') (height img') new_pixels))\<rparr>"
    by (rule encode_success_elim)
  from i assms(1) have [simp]: "img' = img" by simp
  let ?bits = "bytes_to_bits (apply_shift payload password @ delimiter_bytes)"
  let ?flat = "flatten (rgb_data img)"
  let ?out = "new_rgb_image (width img) (height img) new_pixels"
  have ne: "?bits \<noteq> []"
    using length_bytes_to_bits [of "apply_shift payload password @ delimiter_bytes"]
    by (auto simp: length_delimiter_bytes)
  from embed_bits_Inr_stego [OF emb [simplified] ne]
  have le: "length ?bits \<le> length ?flat" and f': "flat' = stego_flat ?flat ?bits" by simp_all
  have rng: "\<forall>x\<in>set flat'. 0 \<le> x \<and> x < 256"
    unfolding f' by (rule stego_flat_range) (use flatten_range is_bits_bytes_to_bits in blast)+
  have fl: "flatten (rgb_data ?out) = stego_flat ?flat ?bits"
    using flatten_regroup [OF rg rng] by (simp add: new_rgb_image_def f')
  have "files fs' output_path = Some (ImageFile ?out)" by (simp add: fs')
  moreover have "width ?out = width img" "height ?out = height img"
    by (simp_all add: new_rgb_image_def)
  moreover have "length (flatten (rgb_data ?out)) = length ?flat"
    by (simp only: fl length_stego_flat [OF le])
  moreover have "\<forall>i < length ?flat.
          drop_bit 1 (flatten (rgb_data ?out) ! i) = drop_bit 1 (?flat ! i)
        \<and> (i < length ?bits \<longrightarrow> flatten (rgb_data ?out) ! i AND 1 = ?bits ! i)
        \<and> (length ?bits \<le> i \<longrightarrow> flatten (rgb_data ?out) ! i = ?flat ! i)"
    unfolding fl using stego_flat_nth [OF is_bits_bytes_to_bits le] by blast
  ultimately show ?thesis using e by blast
qed

theorem C9_frame_witness:
  "\<exists>out payload.
       files (snd (encode_message (image_fs ''carrier.png'' (solid_rgb 10 10 (42, 58, 90)))
              ''carrier.png'' (map of_char ''hi'') ''stego.png'' (map of_char ''hunter2'')))
         ''stego.png'' = Some (ImageFile out)
     \<and> utf8_encode (map of_char ''hi'') = Inr payload
     \<and> width out = width (solid_rgb 10 10 (42, 58, 90))
     \<and> height out = height (solid_rgb 10 10 (42, 58, 90))
     \<and> length (flatten (rgb_data out)) = length (flatten (rgb_data (solid_rgb 10 10 (42, 58, 90))))
     \<and> (\<forall>i < length (flatten (rgb_data (solid_rgb 10 10 (42, 58, 90)))).
          drop_bit 1 (flatten (rgb_data out) ! i)
            = drop_bit 1 (flatten (rgb_data (solid_rgb 10 10 (42, 58, 90))) ! i)
        \<and> (i < length (bytes_to_bits (apply_shift payload (map of_char ''hunter2'') @ delimiter_bytes)) \<longrightarrow>
             flatten (rgb_data out) ! i AND 1
               = bytes_to_bits (apply_shift payload (map of_char ''hunter2'') @ delimiter_bytes) ! i)
        \<and> (length (bytes_to_bits (apply_shift payload (map of_char ''hunter2'') @ delimiter_bytes)) \<le> i \<longrightarrow>
             flatten (rgb_data out) ! i = flatten (rgb_data (solid_rgb 10 10 (42, 58, 90))) ! i))"
proof -
  have s: "success (fst (encode_message (image_fs ''carrier.png'' (solid_rgb 10 10 (42, 58, 90)))
              ''carrier.png'' (map of_char ''hi'') ''stego.png'' (map of_char ''hunter2'')))"
    by (rule small_encode_success [OF enc_hi]) simp
  show ?thesis
    by (rule C9_frame
          [where fs = "image_fs ''carrier.png'' (solid_rgb 10 10 (42, 58, 90))",
           OF image_fs_files prod.collapse [symmetric] s])
qed

text \<open>
  C10. The password enters the transform only through the sum of its code points modulo
  256: two passwords with congruent sums (a non-empty password with sum 0 modulo 256 and
  the empty password included) shift and un-shift every byte sequence alike, encode alike
  and decode every image alike; and what one of them encoded successfully the other decodes
  to exactly the message, provided that the shifted payload bytes do not contain the
  delimiter bytes.
\<close>

theorem C10_password_checksum:
  assumes "sum_list p1 mod 256 = sum_list p2 mod 256"
  shows "apply_shift b p1 = apply_shift b p2
       \<and> reverse_shift b p1 = reverse_shift b p2
       \<and> encode_message fs image_path msg output_path p1
           = encode_message fs image_path msg output_path p2
       \<and> decode_message fs' path p1 = decode_message fs' path p2
       \<and> (encode_message fs image_path msg output_path p1 = (res, fs'') \<and> success res
            \<and> is_str msg \<and> utf8_encode msg = Inr payload
            \<and> \<not> sublist delimiter_bytes (apply_shift payload p1) \<longrightarrow>
          decode_message fs'' output_path p2 =
            \<lparr>dec_success = True, dec_message = MessageExtracted, secret = Some msg\<rparr>)"
proof -
  from assms have s: "password_shift p1 = password_shift p2"
    by (simp add: password_shift_def)
  have a: "apply_shift x p1 = apply_shift x p2" for x
    by (simp only: apply_shift_eq s)
  have r: "reverse_shift x p1 = reverse_shift x p2" for x
    by (simp only: reverse_shift_eq s)
  have e: "encode_message fs image_path msg output_path p1
           = encode_message fs image_path msg output_path p2"
    by (simp only: encode_message_def encode_body_def a)
  have d: "decode_message fs' path p1 = decode_message fs' path p2"
    by (simp only: decode_message_def decode_body_def r)
  have t: "decode_message fs'' output_path p2 =
            \<lparr>dec_success = True, dec_message = MessageExtracted, secret = Some msg\<rparr>"
    if "encode_message fs image_path msg output_path p1 = (res, fs'') \<and> success res
            \<and> is_str msg \<and> utf8_encode msg = Inr payload
            \<and> \<not> sublist delimiter_bytes (apply_shift payload p1)"
    using that decode_roundtrip [where ?p1.0 = p1 and ?p2.0 = p2, OF _ _ _ _ _ s] by blast
  from a [of b] r [of b] e d t show ?thesis by (intro conjI impI)
qed

theorem C10_password_checksum_witness:
  "sum_list (map of_char ''hunter2'') mod 256 = sum_list [200 :: int] mod 256
   \<and> apply_shift [1, 255] (map of_char ''hunter2'') = [201, 199]
   \<and> apply_shift [1, 255] [200] = [201, 199]
   \<and> reverse_shift [201, 199] (map of_char ''hunter2'') = [1, 255]
   \<and> reverse_shift [201, 199] [200] = [1, 255]
   \<and> encode_message (image_fs ''carrier.png'' (solid_rgb 10 10 (42, 58, 90)))
        ''carrier.png'' (map of_char ''hi'') ''stego.png'' (map of_char ''hunter2'')
       = encode_message (image_fs ''carrier.png'' (solid_rgb 10 10 (42, 58, 90)))
        ''carrier.png'' (map of_char ''hi'') ''stego.png'' [200]
   \<and> decode_message (image_fs ''stego.png'' (solid_rgb 10 10 (42, 58, 90))) ''stego.png''
        (map of_char ''hunter2'')
       = decode_message (image_fs ''stego.png'' (solid_rgb 10 10 (42, 58, 90))) ''stego.png'' [200]
   \<and> decode_message
       (snd (encode_message (image_fs ''_test_carrier.png'' (solid_rgb 100 100 (42, 58, 90)))
          ''_test_carrier.png''
          (map of_char ''this is a secret message!! nobody can see this '' @ [0x1F510])
          ''_test_stego.png'' (map of_char ''hunter2'')))
       ''_test_stego.png'' [200]
     = \<lparr>dec_success = True, dec_message = MessageExtracted,
        secret = Some (map of_char ''this is a secret message!! nobody can see this '' @ [0x1F510])\<rparr>"
proof -
  have c: "sum_list (map of_char ''hunter2'') mod 256 = sum_list [200 :: int] mod 256" by simp
  have a1: "apply_shift [1, 255] [200] = [201, 199]"
    by (simp add: apply_shift_def password_shift_def)
  have r1: "reverse_shift [201, 199] [200] = [1, 255]"
    by (simp add: reverse_shift_def password_shift_def)
  note t = C10_password_checksum [OF c, THEN conjunct2, THEN conjunct2]
  from C10_password_checksum [OF c, of "[1, 255]", THEN conjunct1]
  have a2: "apply_shift [1, 255] (map of_char ''hunter2'') = [201, 199]"
    by (simp only: a1)
  from C10_password_checksum [OF c, of "[201, 199]", THEN conjunct2, THEN conjunct1]
  have r2: "reverse_shift [201, 199] (map of_char ''hunter2'') = [1, 255]"
    by (simp only: r1)
  note m = t [THEN conjunct2, THEN conjunct2, rule_format,
      OF conjI [OF prod.collapse [symmetric]
           conjI [OF test_encode_success
             conjI [OF test_message_is_str
               conjI [OF test_message_bytes test_message_no_delimiter]]]]]
  from c a2 a1 r2 r1 t [THEN conjunct1] t [THEN conjunct2, THEN conjunct1] m
  show ?thesis by (intro conjI)
qed

theorem C10_counterexample:
  "sum_list [] mod 256 = sum_list [256 :: int] mod 256
   \<and> is_str (map of_char ''a<<END>>b'')
   \<and> success (fst (encode_message (image_fs ''carrier.png'' (solid_rgb 10 10 (42, 58, 90)))
             ''carrier.png'' (map of_char ''a<<END>>b'') ''stego.png'' [256]))
   \<and> decode_message
       (snd (encode_message (image_fs ''carrier.png'' (solid_rgb 10 10 (42, 58, 90)))
             ''carrier.png'' (map of_char ''a<<END>>b'') ''stego.png'' [256]))
       ''stego.png'' []
     = \<lparr>dec_success = True, dec_message = MessageExtracted, secret = Some (map of_char ''a'')\<rparr>
   \<and> map of_char ''a'' \<noteq> (map of_char ''a<<END>>b'' :: pystr)"
proof -
  have z: "password_shift [] = 0" "password_shift [256] = 0"
    by (simp_all add: password_shift_def)
  have s: "success (fst (encode_message (image_fs ''carrier.png'' (solid_rgb 10 10 (42, 58, 90)))
             ''carrier.png'' (map of_char ''a<<END>>b'') ''stego.png'' [256]))"
    by (rule small_encode_success [OF enc1]) simp
  show ?thesis
    using decode_truncated [OF z(2) z(1)] s by (simp add: is_str_def)
qed

text \<open>
  C6. Decoding always returns a structured result, never an exception: the body raises
  only where opening the image does, which the handlers turn into a failure result;
  success is reported exactly when a secret is returned. For an image, the scan always
  ends; if it ends without having matched the delimiter the result is the failure
  "no hidden message" with no secret; and if it matched and the stripped, un-shifted bytes
  are not valid UTF-8, the result is success with the Latin-1 reading of those bytes.
\<close>

theorem C6_decode_never_raises:
  "(dec_success (decode_message fs image_path password)
      \<longleftrightarrow> secret (decode_message fs image_path password) \<noteq> None)
   \<and> (\<forall>e. decode_body fs image_path password = Inl e \<longrightarrow> Image_open fs image_path = Inl e)
   \<and> (files fs image_path = Some (ImageFile img) \<longrightarrow>
        (\<exists>q found. scan_bits (map (\<lambda>p. p AND 1) (flatten (rgb_data img))) [] [] = Inr (q, found)))
   \<and> (files fs image_path = Some (ImageFile img)
        \<and> scan_bits (map (\<lambda>p. p AND 1) (flatten (rgb_data img))) [] [] = Inr (q, False) \<longrightarrow>
        decode_message fs image_path password =
          \<lparr>dec_success = False, dec_message = NoHiddenMessage, secret = None\<rparr>)
   \<and> (files fs image_path = Some (ImageFile img)
        \<and> scan_bits (map (\<lambda>p. p AND 1) (flatten (rgb_data img))) [] [] = Inr (q, True)
        \<and> utf8_decode (reverse_shift q password) = Inl UnicodeDecodeError \<longrightarrow>
        decode_message fs image_path password =
          \<lparr>dec_success = True, dec_message = MessageExtracted,
           secret = Some (latin1_decode (reverse_shift q password))\<rparr>)"
proof -
  have total: "\<exists>q found. scan_bits (map (\<lambda>p. p AND 1) (flatten (rgb_data i))) [] [] = Inr (q, found)"
    for i
    using scan_bits_total [OF is_bits_lsb, of "[]" "flatten (rgb_data i)" "[]"]
    by (auto simp: is_bits_def)
  have body: "Image_open fs image_path = Inl e" if "decode_body fs image_path password = Inl e" for e
  proof (cases "Image_open fs image_path")
    case (Inl e')
    with that show ?thesis by (simp add: decode_body_def)
  next
    case (Inr i)
    from total [of i] obtain q found where
      "scan_bits (map (\<lambda>p. p AND 1) (flatten (rgb_data i))) [] [] = Inr (q, found)" by blast
    with that Inr show ?thesis
      by (simp add: decode_body_def Let_def decode_text_eq del: and_one_eq split: if_splits)
  qed
  have flag: "dec_success (decode_message fs image_path password)
      \<longleftrightarrow> secret (decode_message fs image_path password) \<noteq> None"
  proof (cases "decode_body fs image_path password")
    case (Inl e)
    then show ?thesis by (cases e) (simp_all add: decode_message_def)
  next
    case (Inr r)
    then show ?thesis
      by (auto simp: decode_message_def decode_body_def Let_def
          split: sum.splits if_splits prod.splits)
  qed
  show ?thesis
    using flag body total [of img]
    by (auto simp: decode_message_image simp del: and_one_eq)
qed

theorem C6_decode_never_raises_witness:
  "decode_message (image_fs ''plain.png'' plain_image) ''plain.png'' (map of_char ''hunter2'')
     = \<lparr>dec_success = False, dec_message = NoHiddenMessage, secret = None\<rparr>
   \<and> decode_message (image_fs ''garbled.png'' garbled_image) ''garbled.png'' []
     = \<lparr>dec_success = True, dec_message = MessageExtracted, secret = Some [255]\<rparr>"
proof -
  have r: "reverse_shift [255] [] = [255]" by (simp add: reverse_shift_def)
  have l: "latin1_decode [255] = [255]" by (simp add: latin1_decode_def)
  show ?thesis
    using C6_decode_never_raises
        [where fs = "image_fs ''plain.png'' plain_image" and image_path = "''plain.png''"
           and img = plain_image and q = "[0]" and password = "map of_char ''hunter2''"]
      C6_decode_never_raises
        [where fs = "image_fs ''garbled.png'' garbled_image"
           and image_path = "''garbled.png''"
           and img = garbled_image and q = "[255]" and password = "[]"]
    by (simp only: scan_plain_image scan_garbled_image r l utf8_decode_255 image_fs_files simp_thms)
qed

text \<open>
  C5. On every successful encode the bit stream written to the image starts with the bits
  of the transformed payload bytes followed by the UTF-8 bytes of the delimiter
  \<^verbatim>\<open><<END>>\<close>: the delimiter is appended after the transform and is not shifted. On every
  successful decode the bytes \<open>q\<close> to which the reverse shift is applied are those
  accumulated before the matched delimiter: \<open>q\<close> followed by the untransformed delimiter
  bytes is a prefix of the image's bit stream, and the secret is the text of the reverse
  shift of \<open>q\<close> alone.
\<close>

theorem C5_delimiter_order:
  "(files fs image_path = Some (ImageFile img)
      \<and> encode_message fs image_path msg output_path password = (res, fs'') \<and> success res \<longrightarrow>
      (\<exists>out payload. files fs'' output_path = Some (ImageFile out) \<and> utf8_encode msg = Inr payload
         \<and> prefix (bytes_to_bits (apply_shift payload password @ delimiter_bytes))
              (map (\<lambda>p. p AND 1) (flatten (rgb_data out)))))
   \<and> utf8_encode DELIMITER = Inr delimiter_bytes \<and> DELIMITER = map of_char ''<<END>>''
   \<and> (files fs' path = Some (ImageFile img') \<and> dec_success (decode_message fs' path password') \<longrightarrow>
      (\<exists>q t. prefix (bytes_to_bits (q @ delimiter_bytes))
                (map (\<lambda>p. p AND 1) (flatten (rgb_data img')))
         \<and> decode_text (reverse_shift q password') = Inr t
         \<and> secret (decode_message fs' path password') = Some t))"
proof (intro conjI impI)
  assume a: "files fs image_path = Some (ImageFile img)
      \<and> encode_message fs image_path msg output_path password = (res, fs'') \<and> success res"
  then have e0: "encode_message fs image_path msg output_path password = (res, fs'')"
    and ok: "success res" by simp_all
  show "\<exists>out payload. files fs'' output_path = Some (ImageFile out) \<and> utf8_encode msg = Inr payload
         \<and> prefix (bytes_to_bits (apply_shift payload password @ delimiter_bytes))
              (map (\<lambda>p. p AND 1) (flatten (rgb_data out)))"
  proof (rule encode_success_out [OF e0 ok])
    fix img0 out payload
    assume o: "files fs'' output_path = Some (ImageFile out)"
      and e: "utf8_encode msg = Inr payload"
      and le: "length (bytes_to_bits (apply_shift payload password @ delimiter_bytes))
         \<le> length (flatten (rgb_data img0))"
      and fl: "flatten (rgb_data out) =
         stego_flat (flatten (rgb_data img0))
           (bytes_to_bits (apply_shift payload password @ delimiter_bytes))"
    have "prefix (bytes_to_bits (apply_shift payload password @ delimiter_bytes))
              (map (\<lambda>p. p AND 1) (flatten (rgb_data out)))"
      unfolding fl stego_flat_lsb [OF is_bits_bytes_to_bits le] by (rule prefixI) (rule refl)
    with o e show ?thesis by blast
  qed
next
  show "utf8_encode DELIMITER = Inr delimiter_bytes"
    by (simp only: utf8_encode_DELIMITER delimiter_bytes_eq)
next
  show "DELIMITER = map of_char ''<<END>>''" by (rule DELIMITER_def)
next
  assume a: "files fs' path = Some (ImageFile img') \<and> dec_success (decode_message fs' path password')"
  let ?raw = "map (\<lambda>p. p AND 1) (flatten (rgb_data img'))"
  from a have i: "files fs' path = Some (ImageFile img')" ..
  obtain q found where sc: "scan_bits ?raw [] [] = Inr (q, found)"
    using scan_bits_total [OF is_bits_lsb, of "[]" "flatten (rgb_data img')" "[]"]
    by (auto simp: is_bits_def)
  from a have found
    unfolding decode_message_image [where fs = fs' and image_path = path, OF i] sc
    by (cases found) simp_all
  with sc have sc': "scan_bits ?raw [] [] = Inr (q, True)" by simp
  from scan_bits_found_prefix [OF sc' is_bits_lsb] obtain k where
    "bytes_to_bits (q @ delimiter_bytes) = take k ?raw"
    by (auto simp: is_bits_def)
  then have "prefix (bytes_to_bits (q @ delimiter_bytes)) ?raw"
    by (simp only: take_is_prefix)
  moreover have "secret (decode_message fs' path password')
      = Some (case utf8_decode (reverse_shift q password') of
                Inr t \<Rightarrow> t | Inl e \<Rightarrow> latin1_decode (reverse_shift q password'))"
    unfolding decode_message_image [where fs = fs' and image_path = path, OF i] sc' by simp
  ultimately show "\<exists>q t. prefix (bytes_to_bits (q @ delimiter_bytes)) ?raw
         \<and> decode_text (reverse_shift q password') = Inr t
         \<and> secret (decode_message fs' path password') = Some t"
    using decode_text_eq by blast
qed

theorem C5_delimiter_order_witness:
  "(\<exists>out payload.
       files (snd (encode_message (image_fs ''carrier.png'' (solid_rgb 10 10 (42, 58, 90)))
              ''carrier.png'' (map of_char ''hi'') ''stego.png'' (map of_char ''hunter2'')))
         ''stego.png'' = Some (ImageFile out)
       \<and> utf8_encode (map of_char ''hi'') = Inr payload
       \<and> prefix (bytes_to_bits (apply_shift payload (map of_char ''hunter2'') @ delimiter_bytes))
            (map (\<lambda>p. p AND 1) (flatten (rgb_data out))))
   \<and> (\<exists>q t. prefix (bytes_to_bits (q @ delimiter_bytes))
                (map (\<lambda>p. p AND 1) (flatten (rgb_data garbled_image)))
         \<and> decode_text (reverse_shift q []) = Inr t
         \<and> secret (decode_message (image_fs ''garbled.png'' garbled_image) ''garbled.png'' [])
             = Some t)"
proof -
  let ?fs = "image_fs ''carrier.png'' (solid_rgb 10 10 (42, 58, 90))"
  let ?e = "encode_message ?fs ''carrier.png'' (map of_char ''hi'') ''stego.png''
              (map of_char ''hunter2'')"
  have f: "files ?fs ''carrier.png'' = Some (ImageFile (solid_rgb 10 10 (42, 58, 90)))"
    by (rule image_fs_files)
  have s: "success (fst ?e)"
    by (rule small_encode_success [OF enc_hi]) simp
  have e: "?e = (fst ?e, snd ?e)" by simp
  have g: "files (image_fs ''garbled.png'' garbled_image) ''garbled.png''
             = Some (ImageFile garbled_image)" by (rule image_fs_files)
  have d: "dec_success (decode_message (image_fs ''garbled.png'' garbled_image) ''garbled.png'' [])"
    unfolding decode_message_image
        [where fs = "image_fs ''garbled.png'' garbled_image", OF g] scan_garbled_image
    by simp
  from C5_delimiter_order
      [where fs = ?fs and image_path = "''carrier.png''" and img = "solid_rgb 10 10 (42, 58, 90)"
         and msg = "map of_char ''hi''" and output_path = "''stego.png''"
         and password = "map of_char ''hunter2''" and res = "fst ?e" and fs'' = "snd ?e"
         and fs' = "image_fs ''garbled.png'' garbled_image" and path = "''garbled.png''"
         and img' = garbled_image and password' = "[]"]
    f e s g d
  show ?thesis by blast
qed

text \<open>
  C8. \<^verbatim>\<open>_bits_to_text\<close> groups the bits into bytes of 8, most significant bit first, and
  drops a trailing group of fewer than 8 bits, but it does not read the bytes as UTF-8: each
  byte becomes the character with that code point (\<^verbatim>\<open>chr(byte)\<close>). The bits that
  \<^verbatim>\<open>_text_to_bits\<close> produces for the one-character text U+00E9 come back as the two
  characters U+00C3 U+00A9, while the UTF-8 reading of those two bytes is U+00E9.
\<close>

theorem C8_bits_to_text_not_utf8:
  "text_to_bits [0xE9] = Inr [1, 1, 0, 0, 0, 0, 1, 1, 1, 0, 1, 0, 1, 0, 0, 1]
   \<and> bits_to_text [1, 1, 0, 0, 0, 0, 1, 1, 1, 0, 1, 0, 1, 0, 0, 1] = Inr [0xC3, 0xA9]
   \<and> utf8_decode [0xC3, 0xA9] = Inr [0xE9]
   \<and> bits_to_text [1, 1, 0, 0, 0, 0, 1, 1, 1, 0, 1, 0, 1, 0, 0, 1, 0, 1, 1] = Inr [0xC3, 0xA9]"
  by (simp add: text_to_bits_def utf8_encode_char_def byte_bits_def bits_to_byte_def
      utf8_decode_def is_cont_def)

text \<open>
  C7. For every non-empty message, every output target and passwords \<open>p1\<close>, \<open>p2\<close> whose
  code-point sums differ modulo 256: whenever decoding with \<open>p2\<close> the image that a
  successful encode with \<open>p1\<close> wrote reports success, the returned secret is not the
  message.
\<close>

theorem C7_wrong_password:
  assumes "encode_message fs image_path msg output_path p1 = (res, fs')"
    and "success res"
    and "msg \<noteq> []"
    and "sum_list p1 mod 256 \<noteq> sum_list p2 mod 256"
  shows "dec_success (decode_message fs' output_path p2) \<longrightarrow>
         secret (decode_message fs' output_path p2) \<noteq> Some msg"
proof (rule encode_success_out [OF assms(1,2)])
  fix payload
  assume enc: "utf8_encode msg = Inr payload"
  obtain q where q: "scan_bytes (apply_shift payload p1 @ delimiter_bytes) [] = (q, True)"
    using scan_bytes_full_hit [of "apply_shift payload p1"]
    by (cases "scan_bytes (apply_shift payload p1 @ delimiter_bytes) []") auto
  from assms(4) have "password_shift p1 \<noteq> password_shift p2"
    by (simp add: password_shift_def)
  from wrong_shift_garbles [OF enc assms(3) this q]
  have "(case utf8_decode (reverse_shift q p2) of
            Inr t \<Rightarrow> t | Inl e \<Rightarrow> latin1_decode (reverse_shift q p2)) \<noteq> msg" .
  then show ?thesis
    unfolding decode_encoded [OF assms(1,2) enc, of p2] q
    by (simp add: Let_def)
qed

theorem C7_wrong_password_witness:
  "success (fst (encode_message (image_fs ''_test_carrier.png'' (solid_rgb 100 100 (42, 58, 90)))
       ''_test_carrier.png''
       (map of_char ''this is a secret message!! nobody can see this '' @ [0x1F510])
       ''_test_stego.png'' (map of_char ''hunter2'')))
   \<and> dec_success
     (decode_message
       (snd (encode_message (image_fs ''_test_carrier.png'' (solid_rgb 100 100 (42, 58, 90)))
          ''_test_carrier.png''
          (map of_char ''this is a secret message!! nobody can see this '' @ [0x1F510])
          ''_test_stego.png'' (map of_char ''hunter2'')))
       ''_test_stego.png'' (map of_char ''wrongpassword123''))
   \<and> secret
     (decode_message
       (snd (encode_message (image_fs ''_test_carrier.png'' (solid_rgb 100 100 (42, 58, 90)))
          ''_test_carrier.png''
          (map of_char ''this is a secret message!! nobody can see this '' @ [0x1F510])
          ''_test_stego.png'' (map of_char ''hunter2'')))
       ''_test_stego.png'' (map of_char ''wrongpassword123''))
     \<noteq> Some (map of_char ''this is a secret message!! nobody can see this '' @ [0x1F510])"
proof -
  have n: "map of_char ''this is a secret message!! nobody can see this '' @ [0x1F510] \<noteq> ([] :: pystr)"
    by simp
  have d: "sum_list (map of_char ''hunter2'') mod 256
             \<noteq> (sum_list (map of_char ''wrongpassword123'') :: int) mod 256"
    by simp
  have s: "dec_success
     (decode_message
       (snd (encode_message (image_fs ''_test_carrier.png'' (solid_rgb 100 100 (42, 58, 90)))
          ''_test_carrier.png''
          (map of_char ''this is a secret message!! nobody can see this '' @ [0x1F510])
          ''_test_stego.png'' (map of_char ''hunter2'')))
       ''_test_stego.png'' (map of_char ''wrongpassword123''))"
    unfolding decode_encoded [OF prod.collapse [symmetric] test_encode_success test_message_bytes,
        of "map of_char ''wrongpassword123''"]
    by simp
  from test_encode_success s
    C7_wrong_password [OF prod.collapse [symmetric] test_encode_success n d, THEN mp, OF s]
  show ?thesis by (intro conjI)
qed

theorem C7_counterexample:
  "decode_message
     (snd (encode_message (image_fs ''carrier.png'' (solid_rgb 10 10 (42, 58, 90)))
             ''carrier.png'' [] ''stego.png'' (map of_char ''a'')))
     ''stego.png'' (map of_char ''b'')
   = \<lparr>dec_success = True, dec_message = MessageExtracted, secret = Some []\<rparr>
   \<and> success (fst (encode_message (image_fs ''carrier.png'' (solid_rgb 10 10 (42, 58, 90)))
             ''carrier.png'' [] ''stego.png'' (map of_char ''a'')))
   \<and> map of_char ''b'' \<noteq> (map of_char ''a'' :: pystr)
   \<and> sum_list (map of_char ''a'') mod 256 \<noteq> (sum_list (map of_char ''b'') :: int) mod 256"
proof -
  have e: "utf8_encode [] = Inr []" by simp
  have s: "success (fst (encode_message (image_fs ''carrier.png'' (solid_rgb 10 10 (42, 58, 90)))
             ''carrier.png'' [] ''stego.png'' (map of_char ''a'')))"
    by (rule small_encode_success [OF e]) simp
  have a: "apply_shift [] (map of_char ''a'') = []"
    by (simp add: apply_shift_def)
  have sb: "scan_bytes ([] @ delimiter_bytes) [] = ([], True)"
    by (simp add: delimiter_bytes_eq Let_def suffix_iff_drop del: suffix_snoc)
  have r: "reverse_shift (fst ([] :: byte list, True)) (map of_char ''b'') = []"
    by (simp add: reverse_shift_def)
  have u: "utf8_decode [] = Inr []"
    by (simp add: utf8_decode_def)
  show ?thesis
    using s decode_encoded [OF prod.collapse [symmetric] s e, of "map of_char ''b''",
        unfolded a sb r Let_def u]
    by simp
qed

end
